theory Spec2Isabelle
  imports Complex_Main "HOL-Library.Multiset" "HOL-Library.Sublist"
begin

section \<open>The audio player of somesonic: queue and transport\<close>

text \<open>
  A shallow embedding of the class \<open>AudioPlayer\<close> (player.js). The object's fields
  are a record, each method is a function from the state before the call to the state after
  it. Three things the JavaScript takes from its environment are parameters of the model:
  \<^item> the values \<open>Math.random()\<close> returns inside \<open>_shuffleArray\<close>: a function
    \<open>rnd\<close>, where \<open>rnd i\<close> is the number drawn in the loop iteration with index
    \<open>i\<close>; \<open>Math.random\<close> promises a double in \<open>[0, 1)\<close>, which is the predicate
    \<open>unit_draws\<close>; a double is the real number it denotes, and the product
    \<open>Math.random() * (i + 1)\<close> is rounded to the nearest double as IEEE 754 has it;
    volumes and playback positions are real numbers;
  \<^item> how a promise awaited by \<open>playIndex\<close> and \<open>play\<close> settles
    (\<open>audioContext.resume()\<close>, \<open>audio.play()\<close>): an \<open>outcome\<close>;
  \<^item> what the audio element and the host's callbacks do when they are called: every
    command to the audio element and every callback invocation is appended to a trace.

  The definitions keep the names of the methods; \<open>_shuffleArray\<close> and
  \<open>_handleEnded\<close> lose their underscore, \<open>next\<close> is \<open>next_track\<close>, the
  field \<open>id\<close> of a track is \<open>track_id\<close>, and the listeners that the constructor
  installs on the audio element are \<open>on_play\<close>, \<open>on_pause\<close> and \<open>on_error\<close>.
\<close>

subsection \<open>Tracks, the audio element, the state\<close>

text \<open>
  A track object as index.js builds it; the player reads \<open>id\<close> and \<open>streamUrl\<close>
  only. \<open>streamUrl\<close> is \<open>None\<close> for an absent (undefined) property.
\<close>

record track =
  track_id :: string
  title :: string
  streamUrl :: "string option"

text \<open>JavaScript truthiness of \<open>track.streamUrl\<close>: a non-empty string.\<close>

definition truthy :: "string option \<Rightarrow> bool" where
  "truthy u = (case u of None \<Rightarrow> False | Some v \<Rightarrow> v \<noteq> [])"

datatype outcome = Fulfilled | Rejected string | Pending

datatype ctx_state = Suspended | Running

datatype effect =
    SetSrc string
  | SinkPlay
  | SinkPause
  | SetCurrentTime real
  | SetSinkVolume real
  | SetMuted bool
  | ContextResume
  | ConsoleError string
  | TrackChange track
  | PlayStateChange bool
  | Ended
  | Error string

text \<open>
  The fields of the constructor, the audio element's properties the player reads or writes
  (\<open>audio_\<close>), and for each callback slot whether the host has assigned a function.
\<close>

record player =
  queue :: "track list"
  currentIndex :: int
  isPlaying :: bool
  volume :: real
  repeat :: string
  shuffle :: bool
  shuffledQueue :: "track list"
  audioContext :: "ctx_state option"
  audio_src :: "string option"
  audio_currentTime :: real
  audio_volume :: real
  audio_muted :: bool
  onTrackChange :: bool
  onPlayStateChange :: bool
  onEnded :: bool
  onError :: bool
  trace :: "effect list"

definition new_player :: player where
  "new_player = \<lparr> queue = [], currentIndex = -1, isPlaying = False, volume = 1,
     repeat = ''none'', shuffle = False, shuffledQueue = [], audioContext = None,
     audio_src = None, audio_currentTime = 0, audio_volume = 1, audio_muted = False,
     onTrackChange = False, onPlayStateChange = False, onEnded = False, onError = False,
     trace = [] \<rparr>"

definition emit :: "effect \<Rightarrow> player \<Rightarrow> player" where
  "emit e s = s\<lparr>trace := trace s @ [e]\<rparr>"

text \<open>\<open>if (this.onX) this.onX(...)\<close>: the callback runs when the slot is assigned.\<close>

definition notify :: "bool \<Rightarrow> effect \<Rightarrow> player \<Rightarrow> player" where
  "notify slot e s = (if slot then emit e s else s)"

subsection \<open>Shuffling\<close>

text \<open>\<open>[array[i], array[j]] = [array[j], array[i]]\<close>, both indices inside the array.\<close>

definition swap :: "nat \<Rightarrow> nat \<Rightarrow> 'a list \<Rightarrow> 'a list" where
  "swap i j array = array[i := array ! j, j := array ! i]"

text \<open>
  JavaScript numbers are IEEE 754 doubles: a 53-bit significand times a power of two, the
  smallest of them multiples of \<open>2^-1074\<close>.
\<close>

definition is_double :: "real \<Rightarrow> bool" where
  "is_double r =
     (\<exists>m e. r = of_int m * 2 powr of_int e \<and> \<bar>m\<bar> < 2 ^ 53 \<and> - 1074 \<le> e \<and> e \<le> 971)"

text \<open>Rounding to the nearest integer, a tie going to the even one.\<close>

definition round_even :: "real \<Rightarrow> int" where
  "round_even y =
     (let f = \<lfloor>y\<rfloor>; d = y - of_int f in
      if d < 1 / 2 then f else if 1 / 2 < d then f + 1 else if even f then f else f + 1)"

text \<open>
  The result of an arithmetic operation on doubles is its exact result rounded to the
  nearest double, a tie going to the even significand. A number \<open>x\<close> with
  \<open>2^k \<le> |x| < 2^(k+1)\<close> lies among the doubles spaced \<open>2^(k-52)\<close> apart; below
  \<open>2^-1022\<close> (the subnormal numbers) the spacing stays \<open>2^-1074\<close>. Overflow to
  infinity is left out: the products rounded here are below the length of an array.
\<close>

definition binade :: "real \<Rightarrow> int" where
  "binade x = max \<lfloor>log 2 \<bar>x\<bar>\<rfloor> (- 1022)"

definition ulp :: "real \<Rightarrow> real" where
  "ulp x = 2 powr of_int (binade x - 52)"

definition round_double :: "real \<Rightarrow> real" where
  "round_double x = (if x = 0 then 0 else ulp x * of_int (round_even (x / ulp x)))"

text \<open>
  The exponent \<open>binade\<close> by repeated halving and doubling, for evaluation.
\<close>

function ilog2_up :: "real \<Rightarrow> int" where
  "ilog2_up x = (if x < 2 then 0 else ilog2_up (x / 2) + 1)"
  by pat_completeness auto
termination
proof (relation "measure (\<lambda>x. nat \<lceil>x\<rceil>)")
  show "wf (measure (\<lambda>x. nat \<lceil>x\<rceil>))" by simp
next
  fix x :: real
  assume "\<not> x < 2"
  hence "x / 2 \<le> x - 1" by simp
  hence "\<lceil>x / 2\<rceil> \<le> \<lceil>x - 1\<rceil>" by (rule ceiling_mono)
  moreover have "0 < \<lceil>x\<rceil>" using \<open>\<not> x < 2\<close> by (simp add: less_ceiling_iff)
  ultimately show "(x / 2, x) \<in> measure (\<lambda>x. nat \<lceil>x\<rceil>)" by simp
qed

declare ilog2_up.simps [simp del]

fun ilog2_down :: "nat \<Rightarrow> real \<Rightarrow> int" where
  "ilog2_down 0 x = 0"
| "ilog2_down (Suc n) x = (if 1 \<le> x then 0 else ilog2_down n (2 * x) - 1)"

text \<open>
  \<open>Math.floor(Math.random() * (i + 1))\<close> for the double \<open>r\<close> that
  \<open>Math.random()\<close> returned: the product is rounded, then floored (\<open>i + 1\<close> and the
  floor are exact).
\<close>

definition random_index :: "real \<Rightarrow> nat \<Rightarrow> nat" where
  "random_index r i = nat \<lfloor>round_double (r * (real i + 1))\<rfloor>"

text \<open>The contract of \<open>Math.random\<close>: every draw is a double in \<open>[0, 1)\<close>.\<close>

definition unit_draws :: "(nat \<Rightarrow> real) \<Rightarrow> bool" where
  "unit_draws rnd = (\<forall>i. is_double (rnd i) \<and> 0 \<le> rnd i \<and> rnd i < 1)"

text \<open>
  The loop of \<open>_shuffleArray\<close> with its counter at \<open>i\<close>: the body runs while
  \<open>i > 0\<close>, then \<open>i\<close> is decremented.
\<close>

fun shuffle_from :: "(nat \<Rightarrow> real) \<Rightarrow> nat \<Rightarrow> 'a list \<Rightarrow> 'a list" where
  "shuffle_from rnd 0 array = array"
| "shuffle_from rnd (Suc k) array =
     shuffle_from rnd k (swap (Suc k) (random_index (rnd (Suc k)) (Suc k)) array)"

definition shuffleArray :: "(nat \<Rightarrow> real) \<Rightarrow> 'a list \<Rightarrow> 'a list" where
  "shuffleArray rnd array = shuffle_from rnd (length array - 1) array"

text \<open>\<open>Array.prototype.findIndex\<close>: the first index whose element satisfies \<open>P\<close>, else -1.\<close>

fun findIndex :: "('a \<Rightarrow> bool) \<Rightarrow> 'a list \<Rightarrow> int" where
  "findIndex P [] = -1"
| "findIndex P (x # xs) =
     (if P x then 0 else (let r = findIndex P xs in if r < 0 then -1 else r + 1))"

subsection \<open>Queue operations\<close>

definition setQueue :: "(nat \<Rightarrow> real) \<Rightarrow> track list \<Rightarrow> player \<Rightarrow> player" where
  "setQueue rnd tracks s =
     s\<lparr>queue := tracks, shuffledQueue := shuffleArray rnd tracks, currentIndex := -1\<rparr>"

definition addToQueue :: "(nat \<Rightarrow> real) \<Rightarrow> track list \<Rightarrow> player \<Rightarrow> player" where
  "addToQueue rnd tracks s =
     (let q = queue s @ tracks in s\<lparr>queue := q, shuffledQueue := shuffleArray rnd q\<rparr>)"

definition clearQueue :: "player \<Rightarrow> player" where
  "clearQueue s = s\<lparr>queue := [], shuffledQueue := [], currentIndex := -1\<rparr>"

definition getQueue :: "player \<Rightarrow> track list" where
  "getQueue s = (if shuffle s then shuffledQueue s else queue s)"

definition getCurrentTrack :: "player \<Rightarrow> track option" where
  "getCurrentTrack s =
     (let q = getQueue s in
      if currentIndex s \<ge> 0 \<and> currentIndex s < int (length q)
      then Some (q ! nat (currentIndex s)) else None)"

subsection \<open>Transport\<close>

text \<open>
  \<open>if (this.audioContext && this.audioContext.state === 'suspended') await
  this.audioContext.resume()\<close>. The result says whether the method goes on after the
  \<open>await\<close>: a rejected promise throws out of the method, a pending one never resumes it.
\<close>

definition resume_context :: "outcome \<Rightarrow> player \<Rightarrow> player \<times> bool" where
  "resume_context ro s =
     (if audioContext s = Some Suspended
      then (case ro of
              Fulfilled \<Rightarrow> (emit ContextResume (s\<lparr>audioContext := Some Running\<rparr>), True)
            | Rejected e \<Rightarrow> (emit ContextResume s, False)
            | Pending \<Rightarrow> (emit ContextResume s, False))
      else (s, True))"

text \<open>
  \<open>playIndex\<close> up to its first \<open>await\<close>: the range check, the assignment of
  \<open>currentIndex\<close>, and \<open>audio.src = track.streamUrl\<close>. The second component is the
  track whose playback is about to be awaited, if the method goes that far.
\<close>

definition playIndex_begin :: "int \<Rightarrow> player \<Rightarrow> player \<times> track option" where
  "playIndex_begin index s =
     (let q = getQueue s in
      if index < 0 \<or> index \<ge> int (length q) then (s, None)
      else
        (let s1 = s\<lparr>currentIndex := index\<rparr>; t = q ! nat index in
         if truthy (streamUrl t)
         then (emit (SetSrc (the (streamUrl t))) (s1\<lparr>audio_src := streamUrl t\<rparr>), Some t)
         else (s1, None)))"

text \<open>
  The rest of \<open>playIndex\<close>: the context is resumed if suspended, then
  \<open>await this.audio.play()\<close> inside \<open>try\<close>/\<open>catch\<close>.
\<close>

definition playIndex_settle :: "outcome \<Rightarrow> outcome \<Rightarrow> track \<Rightarrow> player \<Rightarrow> player" where
  "playIndex_settle ro po t s =
     (case resume_context ro s of
        (s1, False) \<Rightarrow> s1
      | (s1, True) \<Rightarrow>
          (let s2 = emit SinkPlay s1 in
           case po of
             Fulfilled \<Rightarrow> notify (onTrackChange s2) (TrackChange t) s2
           | Rejected e \<Rightarrow> notify (onError s2) (Error e) (emit (ConsoleError e) s2)
           | Pending \<Rightarrow> s2))"

definition playIndex :: "int \<Rightarrow> outcome \<Rightarrow> outcome \<Rightarrow> player \<Rightarrow> player" where
  "playIndex index ro po s =
     (case playIndex_begin index s of
        (s1, None) \<Rightarrow> s1
      | (s1, Some t) \<Rightarrow> playIndex_settle ro po t s1)"

definition play :: "outcome \<Rightarrow> outcome \<Rightarrow> player \<Rightarrow> player" where
  "play ro po s =
     (if currentIndex s < 0 \<and> length (queue s) > 0 then playIndex 0 ro po s
      else
        (case resume_context ro s of
           (s1, False) \<Rightarrow> s1
         | (s1, True) \<Rightarrow>
             (let s2 = emit SinkPlay s1 in
              case po of
                Fulfilled \<Rightarrow> s2
              | Rejected e \<Rightarrow> emit (ConsoleError e) s2
              | Pending \<Rightarrow> s2)))"

definition pause :: "player \<Rightarrow> player" where
  "pause s = emit SinkPause s"

definition togglePlay :: "outcome \<Rightarrow> outcome \<Rightarrow> player \<Rightarrow> player" where
  "togglePlay ro po s = (if isPlaying s then pause s else play ro po s)"

definition stop :: "player \<Rightarrow> player" where
  "stop s = emit (SetCurrentTime 0) ((emit SinkPause s)\<lparr>audio_currentTime := 0\<rparr>)"

definition hasNext :: "player \<Rightarrow> bool" where
  "hasNext s = (currentIndex s < int (length (getQueue s)) - 1)"

definition hasPrevious :: "player \<Rightarrow> bool" where
  "hasPrevious s = (currentIndex s > 0)"

definition next_track :: "outcome \<Rightarrow> outcome \<Rightarrow> player \<Rightarrow> player" where
  "next_track ro po s = (if hasNext s then playIndex (currentIndex s + 1) ro po s else s)"

definition previous :: "outcome \<Rightarrow> outcome \<Rightarrow> player \<Rightarrow> player" where
  "previous ro po s =
     (if audio_currentTime s > 3
      then emit (SetCurrentTime 0) (s\<lparr>audio_currentTime := 0\<rparr>)
      else if hasPrevious s then playIndex (currentIndex s - 1) ro po s
      else s)"

text \<open>\<open>seek\<close> ignores a time that is not finite; a real number always is.\<close>

definition seek :: "real \<Rightarrow> player \<Rightarrow> player" where
  "seek time s = emit (SetCurrentTime time) (s\<lparr>audio_currentTime := time\<rparr>)"

definition setVolume :: "real \<Rightarrow> player \<Rightarrow> player" where
  "setVolume v s =
     (let s1 = s\<lparr>volume := max 0 (min 1 v)\<rparr>
      in emit (SetSinkVolume (volume s1)) (s1\<lparr>audio_volume := volume s1\<rparr>))"

definition toggleMute :: "player \<Rightarrow> player" where
  "toggleMute s = emit (SetMuted (\<not> audio_muted s)) (s\<lparr>audio_muted := \<not> audio_muted s\<rparr>)"

definition setRepeat :: "string \<Rightarrow> player \<Rightarrow> player" where
  "setRepeat mode s = s\<lparr>repeat := mode\<rparr>"

text \<open>
  \<open>toggleShuffle\<close> flips the flag first; both calls of \<open>getCurrentTrack\<close> come after
  the flip and so read the ordering that the new flag selects.
\<close>

definition toggleShuffle :: "(nat \<Rightarrow> real) \<Rightarrow> player \<Rightarrow> player" where
  "toggleShuffle rnd s0 =
     (let s = s0\<lparr>shuffle := \<not> shuffle s0\<rparr> in
      if shuffle s then
        (let current = getCurrentTrack s;
             s1 = s\<lparr>shuffledQueue := shuffleArray rnd (queue s)\<rparr>
         in case current of
              None \<Rightarrow> s1
            | Some c \<Rightarrow>
                (let idx = findIndex (\<lambda>t. track_id t = track_id c) (shuffledQueue s1);
                     s2 = (if idx > 0
                           then s1\<lparr>shuffledQueue := swap 0 (nat idx) (shuffledQueue s1)\<rparr>
                           else s1)
                 in s2\<lparr>currentIndex := 0\<rparr>))
      else
        (case getCurrentTrack s of
           None \<Rightarrow> s
         | Some c \<Rightarrow>
             s\<lparr>currentIndex := findIndex (\<lambda>t. track_id t = track_id c) (queue s)\<rparr>))"

subsection \<open>Notifications of the audio element\<close>

definition handleEnded :: "outcome \<Rightarrow> outcome \<Rightarrow> player \<Rightarrow> player" where
  "handleEnded ro po s =
     (let s1 = notify (onEnded s) Ended s in
      if repeat s1 = ''one''
      then play ro po (emit (SetCurrentTime 0) (s1\<lparr>audio_currentTime := 0\<rparr>))
      else if hasNext s1 then next_track ro po s1
      else if repeat s1 = ''all'' \<and> length (queue s1) > 0 then playIndex 0 ro po s1
      else s1)"

definition on_play :: "player \<Rightarrow> player" where
  "on_play s = (let s1 = s\<lparr>isPlaying := True\<rparr> in notify (onPlayStateChange s1) (PlayStateChange True) s1)"

definition on_pause :: "player \<Rightarrow> player" where
  "on_pause s = (let s1 = s\<lparr>isPlaying := False\<rparr> in notify (onPlayStateChange s1) (PlayStateChange False) s1)"

definition on_error :: "string \<Rightarrow> player \<Rightarrow> player" where
  "on_error e s = notify (onError s) (Error e) (emit (ConsoleError e) s)"

subsection \<open>Runs of the player\<close>

text \<open>
  Everything that can happen to a player: a method call by the host, with what the
  environment contributes to it, or a notification of the audio element. \<open>SinkTime\<close> is
  the audio element advancing its playback position, \<open>Assign\<close> the host assigning or
  clearing its callback slots, \<open>ContextState\<close> the audio context being created by
  \<open>initAudioContext\<close> or changing its state.
\<close>

datatype op =
    SetQueue "nat \<Rightarrow> real" "track list"
  | AddToQueue "nat \<Rightarrow> real" "track list"
  | ClearQueue
  | PlayIndex int outcome outcome
  | Play outcome outcome
  | Pause
  | TogglePlay outcome outcome
  | Stop
  | Next outcome outcome
  | Previous outcome outcome
  | Seek real
  | SetVolume real
  | ToggleMute
  | SetRepeat string
  | ToggleShuffle "nat \<Rightarrow> real"
  | SinkEnded outcome outcome
  | SinkPlayed
  | SinkPaused
  | SinkError string
  | SinkTime real
  | ContextState ctx_state
  | Assign bool bool bool bool

fun apply_op :: "op \<Rightarrow> player \<Rightarrow> player" where
  "apply_op (SetQueue rnd ts) s = setQueue rnd ts s"
| "apply_op (AddToQueue rnd ts) s = addToQueue rnd ts s"
| "apply_op ClearQueue s = clearQueue s"
| "apply_op (PlayIndex i ro po) s = playIndex i ro po s"
| "apply_op (Play ro po) s = play ro po s"
| "apply_op Pause s = pause s"
| "apply_op (TogglePlay ro po) s = togglePlay ro po s"
| "apply_op Stop s = stop s"
| "apply_op (Next ro po) s = next_track ro po s"
| "apply_op (Previous ro po) s = previous ro po s"
| "apply_op (Seek t) s = seek t s"
| "apply_op (SetVolume v) s = setVolume v s"
| "apply_op ToggleMute s = toggleMute s"
| "apply_op (SetRepeat m) s = setRepeat m s"
| "apply_op (ToggleShuffle rnd) s = toggleShuffle rnd s"
| "apply_op (SinkEnded ro po) s = handleEnded ro po s"
| "apply_op SinkPlayed s = on_play s"
| "apply_op SinkPaused s = on_pause s"
| "apply_op (SinkError e) s = on_error e s"
| "apply_op (SinkTime t) s = s\<lparr>audio_currentTime := t\<rparr>"
| "apply_op (ContextState c) s = s\<lparr>audioContext := Some c\<rparr>"
| "apply_op (Assign a b c d) s =
     s\<lparr>onTrackChange := a, onPlayStateChange := b, onEnded := c, onError := d\<rparr>"

text \<open>The operations whose random draws respect the contract of \<open>Math.random\<close>.\<close>

fun valid_op :: "op \<Rightarrow> bool" where
  "valid_op (SetQueue rnd ts) = unit_draws rnd"
| "valid_op (AddToQueue rnd ts) = unit_draws rnd"
| "valid_op (ToggleShuffle rnd) = unit_draws rnd"
| "valid_op _ = True"

fun run :: "op list \<Rightarrow> player \<Rightarrow> player" where
  "run [] s = s"
| "run (x # xs) s = run xs (apply_op x s)"

text \<open>
  The invariant of the data model on the selected index, with \<open>-1\<close> for "none", and
  the stronger invariant that every run maintains.
\<close>

definition index_inv :: "player \<Rightarrow> bool" where
  "index_inv s =
     (currentIndex s \<noteq> -1 \<longrightarrow> 0 \<le> currentIndex s \<and> currentIndex s < int (length (getQueue s)))"

definition player_inv :: "player \<Rightarrow> bool" where
  "player_inv s =
     (mset (shuffledQueue s) = mset (queue s) \<and>
      -1 \<le> currentIndex s \<and> currentIndex s < int (length (queue s)))"

subsection \<open>The shuffle as the specification words it\<close>

text \<open>
  Fisher--Yates as the specification describes it: for \<open>i\<close> from the last index down
  to 1, element \<open>i\<close> is swapped with the element at a chosen index \<open>pick i\<close>.
\<close>

definition fisher_yates :: "(nat \<Rightarrow> nat) \<Rightarrow> 'a list \<Rightarrow> 'a list" where
  "fisher_yates pick xs = foldl (\<lambda>a i. swap i (pick i) a) xs (rev [1..<length xs])"

subsection \<open>Example tracks\<close>

definition trackA :: track where
  "trackA = \<lparr>track_id = ''a'', title = ''A'', streamUrl = Some ''u/a''\<rparr>"

definition trackB :: track where
  "trackB = \<lparr>track_id = ''b'', title = ''B'', streamUrl = Some ''u/b''\<rparr>"

definition trackC :: track where
  "trackC = \<lparr>track_id = ''c'', title = ''C'', streamUrl = Some ''u/c''\<rparr>"

subsection \<open>Example runs\<close>

text \<open>Two random sources: \<open>Math.random()\<close> returning 0 each time, or 1/2 each time.\<close>

definition zero_draws :: "nat \<Rightarrow> real" where
  "zero_draws = (\<lambda>_. 0)"

definition half_draws :: "nat \<Rightarrow> real" where
  "half_draws = (\<lambda>_. 1 / 2)"

text \<open>
  A player whose host has assigned all callbacks and loaded the queue \<open>[A, B]\<close>; with
  draws of 0 the shuffled ordering is \<open>[B, A]\<close>.
\<close>

definition loaded_AB :: player where
  "loaded_AB = run [Assign True True True True, SetQueue zero_draws [trackA, trackB]] new_player"

text \<open>
  Track A is playing when the host replaces the queue by \<open>[B]\<close>, as \<open>loadAlbum\<close>
  of index.js does; repeat mode is \<open>one\<close>.
\<close>

definition replaced_queue :: player where
  "replaced_queue =
     run [Assign True True True True, SetQueue zero_draws [trackA],
          PlayIndex 0 Fulfilled Fulfilled, SinkPlayed, SetQueue zero_draws [trackB],
          SetRepeat ''one''] new_player"

section \<open>Properties\<close>

subsection \<open>Rounding, random indices and the shuffle\<close>

lemma round_even_le: "of_int (round_even y) \<le> y + 1 / 2"
  unfolding round_even_def Let_def by (auto; linarith)

lemma round_even_ge: "y - 1 / 2 \<le> of_int (round_even y)"
  unfolding round_even_def Let_def by (auto; linarith)

lemma round_even_int_le: "of_int M \<le> y \<Longrightarrow> M \<le> round_even y"
proof -
  assume "of_int M \<le> y"
  hence "M \<le> \<lfloor>y\<rfloor>" by (simp add: le_floor_iff)
  thus ?thesis unfolding round_even_def Let_def by auto
qed

lemma ulp_pos: "0 < ulp x" by (simp add: ulp_def)

lemma round_double_nonneg: "0 \<le> x \<Longrightarrow> 0 \<le> round_double x"
proof -
  assume x: "0 \<le> x"
  have "0 \<le> x / ulp x" using x ulp_pos[of x] by simp
  hence "(0::int) \<le> round_even (x / ulp x)" using round_even_int_le[of 0 "x / ulp x"] by simp
  thus ?thesis using ulp_pos[of x] by (simp add: round_double_def)
qed

lemma round_double_below:
  assumes x: "0 \<le> x" and m: "1 \<le> m" and le: "x \<le> m * (1 - 1 / 2 ^ 53)"
  shows "round_double x < m"
proof (cases "x = 0")
  case True
  thus ?thesis using m by (simp add: round_double_def)
next
  case False
  hence xp: "0 < x" using x by simp
  let ?u = "ulp x"
  let ?y = "x / ?u"
  have up: "0 < ?u" by (rule ulp_pos)
  have rd: "round_double x = ?u * of_int (round_even ?y)" using False by (simp add: round_double_def)
  have "?u * of_int (round_even ?y) \<le> ?u * (?y + 1 / 2)"
    using up round_even_le[of ?y] by (simp add: mult_le_cancel_left_pos)
  also have "\<dots> = x + ?u / 2" using up by (simp add: algebra_simps)
  finally have b: "round_double x \<le> x + ?u / 2" using rd by simp
  show ?thesis
  proof (cases "- 1022 \<le> \<lfloor>log 2 x\<rfloor>")
    case True
    hence k: "binade x = \<lfloor>log 2 x\<rfloor>" using xp by (simp add: binade_def)
    have "2 powr of_int \<lfloor>log 2 x\<rfloor> \<le> x"
      using le_log_iff[of 2 x "of_int \<lfloor>log 2 x\<rfloor>"] xp by simp
    hence "2 powr of_int (binade x) \<le> x" using k by simp
    moreover have "?u = 2 powr of_int (binade x) / 2 ^ 52"
      by (simp add: ulp_def powr_diff)
    ultimately have "?u * 2 ^ 52 \<le> x" by simp
    hence "?u / 2 \<le> x / 2 ^ 53" by simp
    hence "round_double x \<le> x * (1 + 1 / 2 ^ 53)" using b by (simp add: algebra_simps)
    also have "\<dots> \<le> (m * (1 - 1 / 2 ^ 53)) * (1 + 1 / 2 ^ 53)"
      using le by (simp add: mult_le_cancel_right)
    also have "\<dots> = m * (1 - 1 / 2 ^ 106)" by (simp add: algebra_simps)
    also have "\<dots> < m" using m by simp
    finally show ?thesis .
  next
    case False
    hence k: "binade x = - 1022" using xp by (simp add: binade_def)
    have "\<not> (- 1022 \<le> log 2 x)" using False by (simp add: le_floor_iff)
    hence lt: "x < 2 powr (- 1022)" using le_log_iff[of 2 x "- 1022"] xp by simp
    have "(2::real) powr (- 1022) \<le> 2 powr (- 1)" by (rule powr_mono) simp_all
    also have "\<dots> = 1 / 2" by (simp add: powr_minus_divide)
    finally have x1: "x < 1 / 2" using lt by simp
    have "?u = 2 powr (- 1074)" using k by (simp add: ulp_def)
    also have "\<dots> \<le> 2 powr (- 1)" by (rule powr_mono) simp_all
    also have "\<dots> = 1 / 2" by (simp add: powr_minus_divide)
    finally have "?u \<le> 1 / 2" .
    thus ?thesis using b x1 m by linarith
  qed
qed


lemma ilog2_up_eq: "1 \<le> x \<Longrightarrow> ilog2_up x = \<lfloor>log 2 x\<rfloor>"
proof (induction x rule: ilog2_up.induct)
  case (1 x)
  show ?case
  proof (cases "x < 2")
    case True
    have "\<lfloor>log 2 x\<rfloor> = 0"
      using floor_log_eq_powr_iff[of x 2 0] True "1.prems" by simp
    thus ?thesis using True by (simp del: ilog2_up.simps add: ilog2_up.simps[of x])
  next
    case False
    hence h: "1 \<le> x / 2" by simp
    have "log 2 (x / 2) = log 2 x - 1" using "1.prems" by (simp add: log_divide)
    hence "\<lfloor>log 2 (x / 2)\<rfloor> = \<lfloor>log 2 x\<rfloor> - 1" by simp
    thus ?thesis using False "1.IH"[OF False h]
      by (simp del: ilog2_up.simps add: ilog2_up.simps[of x])
  qed
qed

lemma ilog2_down_ge1: "1 \<le> x \<Longrightarrow> ilog2_down n x = 0"
  by (cases n) simp_all

lemma ilog2_down_eq:
  "0 < x \<Longrightarrow> x < 1 \<Longrightarrow> ilog2_down n x = max \<lfloor>log 2 x\<rfloor> (- int n)"
proof (induction n arbitrary: x)
  case 0
  have "log 2 x < 0" using 0 by simp
  hence "\<lfloor>log 2 x\<rfloor> < 0" by (simp add: floor_less_iff)
  thus ?case by simp
next
  case (Suc n)
  have l2: "log 2 (2 * x) = log 2 x + 1" using Suc.prems by (simp add: log_mult)
  show ?case
  proof (cases "1 \<le> 2 * x")
    case True
    have "\<lfloor>log 2 x\<rfloor> = - 1"
      using floor_log_eq_powr_iff[of x 2 "- 1"] True Suc.prems by (simp add: powr_minus_divide)
    thus ?thesis using True Suc.prems by (simp add: ilog2_down_ge1)
  next
    case False
    hence "ilog2_down n (2 * x) = max \<lfloor>log 2 (2 * x)\<rfloor> (- int n)"
      using Suc.IH[of "2 * x"] Suc.prems by simp
    hence "ilog2_down n (2 * x) = max (\<lfloor>log 2 x\<rfloor> + 1) (- int n)" by (simp add: l2)
    thus ?thesis using Suc.prems by simp
  qed
qed

lemma binade_code [code]:
  "binade x =
     (if x = 0 then 0
      else if 1 \<le> \<bar>x\<bar> then ilog2_up \<bar>x\<bar>
      else ilog2_down 1022 \<bar>x\<bar>)"
proof (cases "x = 0")
  case True
  thus ?thesis by (simp add: binade_def log_def)
next
  case False
  show ?thesis
  proof (cases "1 \<le> \<bar>x\<bar>")
    case True
    hence "0 \<le> log 2 \<bar>x\<bar>" by simp
    hence "0 \<le> \<lfloor>log 2 \<bar>x\<bar>\<rfloor>" by simp
    hence "binade x = \<lfloor>log 2 \<bar>x\<bar>\<rfloor>" unfolding binade_def by linarith
    thus ?thesis using True False by (simp add: ilog2_up_eq)
  next
    case f: False
    have "ilog2_down 1022 \<bar>x\<bar> = max \<lfloor>log 2 \<bar>x\<bar>\<rfloor> (- int 1022)"
      by (rule ilog2_down_eq) (use False f in simp_all)
    thus ?thesis using False f by (simp add: binade_def)
  qed
qed


lemma round_double_above:
  fixes m :: nat
  assumes mx: "real m \<le> x" and x53: "x < 2 ^ 53"
  shows "real m \<le> round_double x"
proof (cases "m = 0")
  case True
  thus ?thesis using mx round_double_nonneg[of x] by simp
next
  case False
  hence x1: "1 \<le> x" using mx by (metis One_nat_def Suc_leI neq0_conv of_nat_1 of_nat_mono order_trans)
  hence xp: "0 < x" by simp
  define k where "k = \<lfloor>log 2 x\<rfloor>"
  have k0: "0 \<le> k" using x1 by (simp add: k_def)
  have "\<not> (53 \<le> log 2 x)" using le_log_iff[of 2 x 53] xp x53 by simp
  hence "log 2 x < 53" by simp
  hence k52: "k \<le> 52" unfolding k_def by (simp add: floor_le_iff)
  have ax: "\<bar>x\<bar> = x" using xp by simp
  have bk: "binade x = k" unfolding binade_def ax k_def[symmetric] using k0 by simp
  define j where "j = nat (52 - k)"
  have u: "ulp x = 1 / 2 ^ j"
  proof -
    have "ulp x = 2 powr (- real j)" using k52 by (simp add: ulp_def bk j_def)
    thus ?thesis by (simp add: powr_minus_divide powr_realpow)
  qed
  have "x / ulp x = x * 2 ^ j" by (simp add: u)
  moreover have "real m * 2 ^ j \<le> x * 2 ^ j" using mx by simp
  ultimately have "of_int (int m * 2 ^ j) \<le> x / ulp x" by simp
  hence "int m * 2 ^ j \<le> round_even (x / ulp x)" by (rule round_even_int_le)
  hence "real_of_int (int m * 2 ^ j) \<le> of_int (round_even (x / ulp x))" by (simp only: of_int_le_iff)
  hence "real m * 2 ^ j \<le> of_int (round_even (x / ulp x))" by simp
  hence "real m \<le> of_int (round_even (x / ulp x)) / 2 ^ j" by (simp add: pos_le_divide_eq)
  thus ?thesis using xp by (simp add: round_double_def u)
qed

lemma double_below_one:
  assumes d: "is_double r" and r1: "r < 1"
  shows "r \<le> 1 - 1 / 2 ^ 53"
proof -
  from d obtain m e where r: "r = of_int m * 2 powr of_int e" and m: "\<bar>m\<bar> < 2 ^ 53"
    and e: "- 1074 \<le> e" "e \<le> 971"
    unfolding is_double_def by blast
  show ?thesis
  proof (cases "- 53 \<le> e")
    case True
    define j where "j = nat (e + 53)"
    have "2 powr of_int e = 2 powr (real j - 53)" using True by (simp add: j_def)
    also have "\<dots> = 2 ^ j / 2 ^ 53" by (simp add: powr_diff powr_realpow)
    finally have r': "r = of_int (m * 2 ^ j) / 2 ^ 53" using r by simp
    hence "real_of_int (m * 2 ^ j) < 2 ^ 53" using r1 by (simp add: pos_divide_less_eq)
    hence "real_of_int (m * 2 ^ j) < real_of_int (2 ^ 53)" by simp
    hence "m * 2 ^ j < 2 ^ 53" by (simp only: of_int_less_iff)
    hence "m * 2 ^ j \<le> 2 ^ 53 - 1" by simp
    hence "real_of_int (m * 2 ^ j) \<le> real_of_int (2 ^ 53 - 1)" by (simp only: of_int_le_iff)
    hence "real_of_int (m * 2 ^ j) \<le> 2 ^ 53 - 1" by simp
    hence "r \<le> (2 ^ 53 - 1) / 2 ^ 53" unfolding r' by (simp add: divide_right_mono)
    thus ?thesis by (simp add: field_simps)
  next
    case False
    hence "of_int e \<le> (- 54 :: real)" by simp
    hence p: "(2::real) powr of_int e \<le> 2 powr (- 54)" by (intro powr_mono) simp_all
    have "of_int m \<le> (2 ^ 53 :: real)"
    proof -
      have "m \<le> 2 ^ 53" using m by simp
      hence "real_of_int m \<le> real_of_int (2 ^ 53)" by (simp only: of_int_le_iff)
      thus ?thesis by simp
    qed
    hence "real_of_int m * 2 powr real_of_int e \<le> 2 ^ 53 * 2 powr real_of_int e"
      by (rule mult_right_mono) simp
    also have "\<dots> \<le> 2 ^ 53 * 2 powr (- 54)" by (rule mult_left_mono[OF p]) simp
    also have "\<dots> = 1 / 2" by (simp add: powr_minus_divide)
    finally have "r \<le> 1 / 2" using r by simp
    thus ?thesis by simp
  qed
qed

lemma is_double_zero: "is_double 0"
  unfolding is_double_def by (rule exI[of _ 0], rule exI[of _ 0]) simp

lemma is_double_half: "is_double (1 / 2)"
  unfolding is_double_def by (rule exI[of _ 1], rule exI[of _ "- 1"]) (simp add: powr_minus_divide)

lemma random_index_le:
  assumes d: "is_double r" and r0: "0 \<le> r" and r1: "r < 1"
  shows "random_index r i \<le> i"
proof -
  have a: "r \<le> 1 - 1 / 2 ^ 53" using d r1 by (rule double_below_one)
  have "r * (real i + 1) = (real i + 1) * r" by (rule mult.commute)
  also have "\<dots> \<le> (real i + 1) * (1 - 1 / 2 ^ 53)" by (rule mult_left_mono[OF a]) simp
  finally have le: "r * (real i + 1) \<le> (real i + 1) * (1 - 1 / 2 ^ 53)" .
  have "round_double (r * (real i + 1)) < real i + 1"
    by (rule round_double_below[OF _ _ le]) (use r0 in simp_all)
  hence "\<lfloor>round_double (r * (real i + 1))\<rfloor> < int i + 1"
    using floor_less_iff[of "round_double (r * (real i + 1))" "int i + 1"] by simp
  thus ?thesis unfolding random_index_def by linarith
qed

lemma random_index_inside:
  assumes r0: "0 \<le> r" and x53: "r * (real i + 1) < 2 ^ 53"
    and lo: "real j \<le> r * (real i + 1)"
    and hi: "r * (real i + 1) \<le> (real j + 1) * (1 - 1 / 2 ^ 53)"
  shows "random_index r i = j"
proof -
  let ?x = "r * (real i + 1)"
  have x0: "0 \<le> ?x" using r0 by simp
  have a: "real j \<le> round_double ?x" using lo x53 by (rule round_double_above)
  have b: "round_double ?x < real j + 1" by (rule round_double_below[OF x0 _ hi]) simp
  have "\<lfloor>round_double ?x\<rfloor> = int j"
    using floor_eq_iff[of "round_double ?x" "int j"] a b by simp
  thus ?thesis by (simp add: random_index_def)
qed

lemma random_index_outside:
  assumes r0: "0 \<le> r" and x53: "r * (real i + 1) < 2 ^ 53"
    and j: "random_index r i = j"
  shows "real j * (1 - 1 / 2 ^ 53) \<le> r * (real i + 1) \<and> r * (real i + 1) < real j + 1"
proof -
  let ?x = "r * (real i + 1)"
  have x0: "0 \<le> ?x" using r0 by simp
  have f0: "0 \<le> round_double ?x" using x0 by (rule round_double_nonneg)
  hence "0 \<le> \<lfloor>round_double ?x\<rfloor>" by simp
  moreover have "nat \<lfloor>round_double ?x\<rfloor> = j" using j by (simp add: random_index_def)
  ultimately have fl: "\<lfloor>round_double ?x\<rfloor> = int j" by linarith
  hence ab: "real j \<le> round_double ?x \<and> round_double ?x < real j + 1"
    using floor_eq_iff[of "round_double ?x" "int j"] by simp
  have up: "?x < real j + 1"
  proof (rule ccontr)
    assume "\<not> ?x < real j + 1"
    hence "real (Suc j) \<le> ?x" by simp
    hence "real (Suc j) \<le> round_double ?x" using x53 by (rule round_double_above)
    thus False using ab by simp
  qed
  have low: "real j * (1 - 1 / 2 ^ 53) \<le> ?x"
  proof (cases "j = 0")
    case True
    thus ?thesis using x0 by simp
  next
    case False
    hence j1: "1 \<le> real j" by simp
    show ?thesis
    proof (rule ccontr)
      assume "\<not> real j * (1 - 1 / 2 ^ 53) \<le> ?x"
      hence "?x \<le> real j * (1 - 1 / 2 ^ 53)" by simp
      hence "round_double ?x < real j" by (rule round_double_below[OF x0 j1])
      thus False using ab by simp
    qed
  qed
  from low up show ?thesis by simp
qed

lemma mset_swap_in: "i < length xs \<Longrightarrow> j < length xs \<Longrightarrow> mset (swap i j xs) = mset xs"
  by (simp add: swap_def mset_swap)

lemma length_swap: "length (swap i j xs) = length xs"
  by (simp add: swap_def)

lemma mset_shuffle_from:
  "unit_draws rnd \<Longrightarrow> k < length xs \<Longrightarrow> mset (shuffle_from rnd k xs) = mset xs"
proof (induction k arbitrary: xs)
  case 0
  thus ?case by simp
next
  case (Suc k)
  have "random_index (rnd (Suc k)) (Suc k) \<le> Suc k"
    using Suc.prems(1) by (simp add: unit_draws_def random_index_le)
  hence j: "random_index (rnd (Suc k)) (Suc k) < length xs" using Suc.prems(2) by simp
  have "mset (swap (Suc k) (random_index (rnd (Suc k)) (Suc k)) xs) = mset xs"
    using j Suc.prems(2) by (simp add: mset_swap_in)
  moreover have "k < length (swap (Suc k) (random_index (rnd (Suc k)) (Suc k)) xs)"
    using Suc.prems(2) by (simp add: length_swap)
  ultimately show ?case using Suc.IH[OF Suc.prems(1)] by simp
qed

lemma mset_shuffleArray: "unit_draws rnd \<Longrightarrow> mset (shuffleArray rnd xs) = mset xs"
proof (cases xs)
  case Nil
  thus ?thesis by (simp add: shuffleArray_def)
next
  case (Cons a as)
  assume "unit_draws rnd"
  thus ?thesis using Cons by (simp add: shuffleArray_def mset_shuffle_from)
qed

lemma shuffle_from_foldl:
  "shuffle_from rnd k xs
   = foldl (\<lambda>a i. swap i (random_index (rnd i) i) a) xs (rev [1..<Suc k])"
  by (induction k arbitrary: xs) simp_all

lemma shuffleArray_fisher_yates:
  "shuffleArray rnd xs = fisher_yates (\<lambda>i. random_index (rnd i) i) xs"
proof (cases xs)
  case Nil
  thus ?thesis by (simp add: shuffleArray_def fisher_yates_def)
next
  case (Cons a as)
  hence "Suc (length xs - 1) = length xs" by simp
  thus ?thesis unfolding shuffleArray_def fisher_yates_def shuffle_from_foldl by simp
qed

subsection \<open>findIndex\<close>

lemma findIndex_range: "-1 \<le> findIndex P xs \<and> findIndex P xs < int (length xs)"
  by (induction xs) (auto simp: Let_def)

lemma findIndex_sat: "0 \<le> findIndex P xs \<Longrightarrow> P (xs ! nat (findIndex P xs))"
proof (induction xs)
  case Nil
  thus ?case by simp
next
  case (Cons x xs)
  show ?case
  proof (cases "P x")
    case True
    thus ?thesis by simp
  next
    case False
    with Cons.prems have r: "0 \<le> findIndex P xs" by (simp add: Let_def split: if_splits)
    hence "nat (findIndex P xs + 1) = Suc (nat (findIndex P xs))" by simp
    with False r Cons.IH show ?thesis by (simp add: Let_def)
  qed
qed

lemma findIndex_found: "x \<in> set xs \<Longrightarrow> P x \<Longrightarrow> 0 \<le> findIndex P xs"
  by (induction xs) (auto simp: Let_def)

subsection \<open>What the operations leave unchanged, and the invariant\<close>

lemmas transport_defs = playIndex_def playIndex_begin_def playIndex_settle_def
  resume_context_def emit_def notify_def

lemma playIndex_frame:
  "queue (playIndex i ro po s) = queue s \<and> shuffledQueue (playIndex i ro po s) = shuffledQueue s
   \<and> shuffle (playIndex i ro po s) = shuffle s \<and> repeat (playIndex i ro po s) = repeat s"
  by (simp add: transport_defs Let_def split: outcome.splits)

lemma playIndex_currentIndex:
  "currentIndex (playIndex i ro po s)
   = (if 0 \<le> i \<and> i < int (length (getQueue s)) then i else currentIndex s)"
  by (simp add: transport_defs Let_def split: outcome.splits)

lemma player_inv_length: "player_inv s \<Longrightarrow> length (getQueue s) = length (queue s)"
  by (auto simp: player_inv_def getQueue_def dest: mset_eq_length)

lemma player_inv_playIndex: "player_inv s \<Longrightarrow> player_inv (playIndex i ro po s)"
  using player_inv_length[of s]
  by (simp add: player_inv_def playIndex_frame playIndex_currentIndex)

lemma play_frame:
  "queue (play ro po s) = queue s \<and> shuffledQueue (play ro po s) = shuffledQueue s
   \<and> shuffle (play ro po s) = shuffle s \<and> repeat (play ro po s) = repeat s"
  by (simp add: play_def playIndex_frame resume_context_def emit_def Let_def split: outcome.splits)

lemma play_currentIndex:
  "currentIndex (play ro po s)
   = (if currentIndex s < 0 \<and> length (queue s) > 0 then currentIndex (playIndex 0 ro po s) else currentIndex s)"
  by (simp add: play_def resume_context_def emit_def Let_def split: outcome.splits)

lemma player_inv_play:
  assumes inv: "player_inv s"
  shows "player_inv (play ro po s)"
proof (cases "currentIndex s < 0 \<and> length (queue s) > 0")
  case True
  hence "play ro po s = playIndex 0 ro po s" by (simp add: play_def)
  thus ?thesis using player_inv_playIndex[OF inv] by simp
next
  case False
  hence "currentIndex (play ro po s) = currentIndex s" by (auto simp: play_currentIndex)
  thus ?thesis using inv by (simp add: player_inv_def play_frame)
qed

lemma player_inv_setQueue: "unit_draws rnd \<Longrightarrow> player_inv (setQueue rnd ts s)"
  by (simp add: player_inv_def setQueue_def mset_shuffleArray)

lemma player_inv_addToQueue: "unit_draws rnd \<Longrightarrow> player_inv s \<Longrightarrow> player_inv (addToQueue rnd ts s)"
  by (simp add: player_inv_def addToQueue_def Let_def mset_shuffleArray)

lemma player_inv_toggleShuffle:
  assumes r: "unit_draws rnd" and inv: "player_inv s"
  shows "player_inv (toggleShuffle rnd s)"
proof (cases "shuffle s")
  case True
  show ?thesis
  proof (cases "getCurrentTrack (s\<lparr>shuffle := False\<rparr>)")
    case None
    thus ?thesis using True inv by (simp add: toggleShuffle_def Let_def player_inv_def)
  next
    case (Some c)
    have "-1 \<le> findIndex (\<lambda>t. track_id t = track_id c) (queue s) \<and>
          findIndex (\<lambda>t. track_id t = track_id c) (queue s) < int (length (queue s))"
      by (rule findIndex_range)
    thus ?thesis using True inv Some by (simp add: toggleShuffle_def Let_def player_inv_def)
  qed
next
  case False
  let ?S = "shuffleArray rnd (queue s)"
  have m: "mset ?S = mset (queue s)" using r by (rule mset_shuffleArray)
  hence len: "length ?S = length (queue s)" by (rule mset_eq_length)
  show ?thesis
  proof (cases "getCurrentTrack (s\<lparr>shuffle := True\<rparr>)")
    case None
    thus ?thesis using False inv m by (simp add: toggleShuffle_def Let_def player_inv_def)
  next
    case (Some c)
    let ?idx = "findIndex (\<lambda>t. track_id t = track_id c) ?S"
    from Some have "0 < length (shuffledQueue s)"
      by (auto simp: getCurrentTrack_def getQueue_def Let_def split: if_splits)
    hence pos: "0 < length (queue s)" using inv by (auto simp: player_inv_def dest: mset_eq_length)
    have "?idx < int (length ?S)" using findIndex_range by blast
    hence "0 < ?idx \<Longrightarrow> mset (swap 0 (nat ?idx) ?S) = mset (queue s)"
      using m len pos by (simp add: mset_swap_in)
    thus ?thesis using False inv Some m pos
      by (simp add: toggleShuffle_def Let_def player_inv_def)
  qed
qed

lemma player_inv_next: "player_inv s \<Longrightarrow> player_inv (next_track ro po s)"
  by (simp add: next_track_def player_inv_playIndex)

lemma player_inv_previous: "player_inv s \<Longrightarrow> player_inv (previous ro po s)"
  by (simp add: previous_def player_inv_playIndex) (simp add: player_inv_def emit_def)

lemma player_inv_handleEnded: "player_inv s \<Longrightarrow> player_inv (handleEnded ro po s)"
proof -
  assume inv: "player_inv s"
  have a: "player_inv (notify (onEnded s) Ended s)"
    using inv by (simp add: player_inv_def notify_def emit_def)
  have b: "player_inv (emit (SetCurrentTime 0) ((notify (onEnded s) Ended s)\<lparr>audio_currentTime := 0\<rparr>))"
    using inv by (simp add: player_inv_def notify_def emit_def)
  show ?thesis
    using a b by (simp add: handleEnded_def Let_def player_inv_play player_inv_next player_inv_playIndex)
qed

lemma player_inv_apply_op: "valid_op x \<Longrightarrow> player_inv s \<Longrightarrow> player_inv (apply_op x s)"
proof (cases x)
  case (TogglePlay ro po)
  assume "player_inv s"
  thus ?thesis using TogglePlay player_inv_play[of s ro po]
    by (simp add: togglePlay_def) (simp add: pause_def emit_def player_inv_def)
qed (simp_all add: player_inv_setQueue player_inv_addToQueue player_inv_playIndex player_inv_play
      player_inv_next player_inv_previous player_inv_toggleShuffle player_inv_handleEnded,
     simp_all add: player_inv_def clearQueue_def pause_def stop_def seek_def setVolume_def
      toggleMute_def setRepeat_def on_play_def on_pause_def on_error_def emit_def notify_def Let_def)

lemma player_inv_new: "player_inv new_player"
  by (simp add: player_inv_def new_player_def)

lemma player_inv_run: "\<forall>x\<in>set ops. valid_op x \<Longrightarrow> player_inv s \<Longrightarrow> player_inv (run ops s)"
  by (induction ops arbitrary: s) (simp_all add: player_inv_apply_op)

lemma player_inv_index_inv: "player_inv s \<Longrightarrow> index_inv s"
  using player_inv_length[of s] by (simp add: index_inv_def player_inv_def)

subsection \<open>Traces only grow; the examples are well-formed\<close>

lemma trace_playIndex: "prefix (trace s) (trace (playIndex i ro po s))"
  by (simp add: transport_defs Let_def split: outcome.splits)

lemma trace_play: "prefix (trace s) (trace (play ro po s))"
  by (simp add: play_def trace_playIndex resume_context_def emit_def Let_def split: outcome.splits)

lemma trace_next_track: "prefix (trace s) (trace (next_track ro po s))"
  by (simp add: next_track_def trace_playIndex)

lemma play_selected:
  "currentIndex s \<noteq> -1 \<or> queue s = [] \<Longrightarrow> -1 \<le> currentIndex s \<Longrightarrow>
   currentIndex (play ro po s) = currentIndex s \<and> audio_src (play ro po s) = audio_src s
   \<and> audio_currentTime (play ro po s) = audio_currentTime s"
  by (auto simp: play_def resume_context_def emit_def Let_def split: outcome.splits)

lemma play_resume_trace:
  "\<not> (currentIndex s < 0 \<and> length (queue s) > 0) \<Longrightarrow>
   trace (play ro po s)
   = trace s @ (if audioContext s = Some Suspended then [ContextResume] else [])
     @ (if audioContext s = Some Suspended \<and> ro \<noteq> Fulfilled then []
        else SinkPlay # (case po of Fulfilled \<Rightarrow> [] | Rejected e \<Rightarrow> [ConsoleError e]
                                  | Pending \<Rightarrow> []))"
  by (auto simp: play_def resume_context_def emit_def Let_def split: outcome.splits)

lemma valid_examples: "unit_draws zero_draws" "unit_draws half_draws"
  by (simp_all add: unit_draws_def zero_draws_def half_draws_def is_double_zero is_double_half)

lemma player_inv_loaded_AB: "player_inv loaded_AB"
  unfolding loaded_AB_def
  by (rule player_inv_run [OF _ player_inv_new]) (simp add: valid_examples)

lemma player_inv_replaced_queue: "player_inv replaced_queue"
  unfolding replaced_queue_def
  by (rule player_inv_run [OF _ player_inv_new]) (simp add: valid_examples)

lemma player_inv_setRepeat: "player_inv s \<Longrightarrow> player_inv (setRepeat m s)"
  by (simp add: player_inv_def setRepeat_def)

section \<open>The claims\<close>

subsection \<open>C1: enabling shuffle and the selected track\<close>

text \<open>
  C1 says that enabling shuffle keeps the selected track: it is moved to position 0 of the
  new shuffled ordering and \<open>currentIndex\<close> becomes 0. The comment in \<open>toggleShuffle\<close>
  says the same (keep current track at index 0 in shuffled queue), but the method flips
  \<open>shuffle\<close> before it calls \<open>getCurrentTrack\<close>, which therefore reads position
  \<open>currentIndex\<close> of the old shuffled ordering. With the queue \<open>[A, B]\<close>, the
  shuffled ordering \<open>[B, A]\<close> left by \<open>setQueue\<close> and A selected at index 0, enabling
  shuffle selects B.
\<close>

theorem toggleShuffle_enable_changes_selection:
  "getCurrentTrack (playIndex 0 Fulfilled Fulfilled loaded_AB) = Some trackA
   \<and> getCurrentTrack (toggleShuffle half_draws (playIndex 0 Fulfilled Fulfilled loaded_AB))
       = Some trackB
   \<and> track_id trackB \<noteq> track_id trackA"
  by code_simp

subsection \<open>C2: enabling and disabling shuffle\<close>

text \<open>
  C2 says that toggling shuffle on and off again leaves the selection on a track with the
  same id. Enabling sets \<open>currentIndex\<close> to 0; disabling flips the flag first and then
  looks the current track up in the canonical queue, at index 0, where it finds the first
  track of the queue. With the queue \<open>[A, B]\<close> and B selected at index 1, two toggles
  select A.
\<close>

theorem toggleShuffle_twice_changes_selection:
  "getCurrentTrack (playIndex 1 Fulfilled Fulfilled loaded_AB) = Some trackB
   \<and> getCurrentTrack
        (toggleShuffle half_draws
           (toggleShuffle half_draws (playIndex 1 Fulfilled Fulfilled loaded_AB)))
       = Some trackA
   \<and> track_id trackA \<noteq> track_id trackB"
  by code_simp

subsection \<open>C3: playIndex selects at once\<close>

text \<open>
  C3: for an index inside the active ordering, \<open>playIndex\<close> has set \<open>currentIndex\<close>
  to it when the method reaches its first \<open>await\<close>, and \<open>currentIndex\<close> is that index
  after the method however the awaited promises settle, in particular when
  \<open>audio.play()\<close> rejects. For an index outside the active ordering the method returns
  the state it was given: nothing is assigned and no command reaches the audio element.
\<close>

theorem playIndex_selects_immediately:
  "(0 \<le> i \<and> i < int (length (getQueue s)) \<longrightarrow>
      currentIndex (fst (playIndex_begin i s)) = i
      \<and> currentIndex (playIndex i ro po s) = i
      \<and> currentIndex (playIndex i ro (Rejected e) s) = i)
   \<and> (\<not> (0 \<le> i \<and> i < int (length (getQueue s))) \<longrightarrow>
      playIndex_begin i s = (s, None) \<and> playIndex i ro po s = s)"
  by (simp add: playIndex_currentIndex) (simp add: playIndex_def playIndex_begin_def Let_def emit_def)

text \<open>
  C3 at the queue \<open>[A, B]\<close>: index 1 is selected although \<open>audio.play()\<close> rejects;
  indices 2 and -1 leave the player as it was.
\<close>

theorem playIndex_selects_immediately_witness:
  "(0 \<le> (1::int) \<and> 1 < int (length (getQueue loaded_AB))
      \<and> currentIndex (fst (playIndex_begin 1 loaded_AB)) = 1
      \<and> currentIndex (playIndex 1 Fulfilled (Rejected ''network'') loaded_AB) = 1)
   \<and> (\<not> (0 \<le> (2::int) \<and> 2 < int (length (getQueue loaded_AB)))
      \<and> playIndex 2 Fulfilled Fulfilled loaded_AB = loaded_AB)
   \<and> (\<not> (0 \<le> (-1::int) \<and> -1 < int (length (getQueue loaded_AB)))
      \<and> playIndex (-1) Fulfilled Fulfilled loaded_AB = loaded_AB)"
proof -
  have len: "length (getQueue loaded_AB) = 2" by code_simp
  show ?thesis
    using playIndex_selects_immediately[of 1 loaded_AB Fulfilled "Rejected ''network''" "''network''"]
      playIndex_selects_immediately[of 2 loaded_AB Fulfilled Fulfilled "''''"]
      playIndex_selects_immediately[of "-1" loaded_AB Fulfilled Fulfilled "''''"]
    by (simp add: len)
qed

subsection \<open>C4: the transition when a track has ended\<close>

text \<open>
  C4 as stated says that in repeat mode \<open>one\<close> the same track restarts and
  \<open>currentIndex\<close> is unchanged. \<open>_handleEnded\<close> restarts through \<open>play()\<close>, and
  \<open>play()\<close> goes to \<open>playIndex(0)\<close> when no track is selected and the queue is not
  empty. That state is reached when the host replaces the queue while a track is playing:
  when track A ends, track B of the new queue is loaded and \<open>currentIndex\<close> goes from
  -1 to 0.
\<close>

theorem ended_repeat_one_after_setQueue:
  "repeat replaced_queue = ''one''
   \<and> currentIndex replaced_queue = -1
   \<and> audio_src replaced_queue = Some ''u/a''
   \<and> \<not> (currentIndex (handleEnded Fulfilled Fulfilled replaced_queue) = currentIndex replaced_queue)
   \<and> audio_src (handleEnded Fulfilled Fulfilled replaced_queue) = Some ''u/b''"
  by code_simp

text \<open>
  C4, amended. In every state that satisfies the invariant of the player, the transition
  first fires the ended notification (the host's callback, when assigned, is the first
  thing added to the trace). Then:
  \<^item> in repeat mode \<open>one\<close> the position is set to 0 and \<open>play()\<close> runs; when a track
    is selected or the queue is empty, \<open>currentIndex\<close> and the loaded source are
    unchanged, the position is 0, and what reaches the audio element and the host is
    exactly: the ended notification, the position set to 0, the resumption of the audio
    context if it is suspended, and then, unless that resumption does not succeed,
    \<open>audio.play()\<close> (with a log entry if it rejects); when no track is selected and the
    queue is not empty, the transition is \<open>playIndex(0)\<close> and \<open>currentIndex\<close>
    becomes 0;
  \<^item> else, if \<open>hasNext()\<close>, \<open>next()\<close> runs and \<open>currentIndex\<close> is increased by 1;
  \<^item> else, if repeat mode is \<open>all\<close> and the queue is not empty, \<open>playIndex(0)\<close> runs
    and \<open>currentIndex\<close> becomes 0;
  \<^item> else nothing more happens: \<open>currentIndex\<close> is unchanged and is the last position
    of the active ordering.
\<close>

theorem ended_transition_order:
  assumes inv: "player_inv s"
  shows "prefix (trace s @ (if onEnded s then [Ended] else [])) (trace (handleEnded ro po s))
    \<and> (repeat s = ''one'' \<longrightarrow>
          handleEnded ro po s
          = play ro po
              (emit (SetCurrentTime 0) ((notify (onEnded s) Ended s)\<lparr>audio_currentTime := 0\<rparr>))
          \<and> (currentIndex s \<noteq> -1 \<or> queue s = [] \<longrightarrow>
                currentIndex (handleEnded ro po s) = currentIndex s
                \<and> audio_src (handleEnded ro po s) = audio_src s
                \<and> audio_currentTime (handleEnded ro po s) = 0
                \<and> trace (handleEnded ro po s)
                    = trace s @ (if onEnded s then [Ended] else []) @ [SetCurrentTime 0]
                      @ (if audioContext s = Some Suspended then [ContextResume] else [])
                      @ (if audioContext s = Some Suspended \<and> ro \<noteq> Fulfilled then []
                         else SinkPlay # (case po of Fulfilled \<Rightarrow> []
                                          | Rejected e \<Rightarrow> [ConsoleError e] | Pending \<Rightarrow> []))
                \<and> (audioContext s \<noteq> Some Suspended \<longrightarrow>
                      prefix (trace s @ (if onEnded s then [Ended] else [])
                                @ [SetCurrentTime 0, SinkPlay])
                        (trace (handleEnded ro po s))))
          \<and> (currentIndex s = -1 \<and> queue s \<noteq> [] \<longrightarrow>
                handleEnded ro po s
                = playIndex 0 ro po
                    (emit (SetCurrentTime 0)
                       ((notify (onEnded s) Ended s)\<lparr>audio_currentTime := 0\<rparr>))
                \<and> currentIndex (handleEnded ro po s) = 0))
    \<and> (repeat s \<noteq> ''one'' \<and> hasNext s \<longrightarrow>
          handleEnded ro po s = next_track ro po (notify (onEnded s) Ended s)
          \<and> currentIndex (handleEnded ro po s) = currentIndex s + 1)
    \<and> (repeat s \<noteq> ''one'' \<and> \<not> hasNext s \<and> repeat s = ''all'' \<and> queue s \<noteq> [] \<longrightarrow>
          handleEnded ro po s = playIndex 0 ro po (notify (onEnded s) Ended s)
          \<and> currentIndex (handleEnded ro po s) = 0)
    \<and> (repeat s \<noteq> ''one'' \<and> \<not> hasNext s \<and> \<not> (repeat s = ''all'' \<and> queue s \<noteq> []) \<longrightarrow>
          handleEnded ro po s = notify (onEnded s) Ended s
          \<and> currentIndex (handleEnded ro po s) = currentIndex s
          \<and> currentIndex s = int (length (getQueue s)) - 1)"
proof -
  let ?s1 = "notify (onEnded s) Ended s"
  let ?s2 = "emit (SetCurrentTime 0) (?s1\<lparr>audio_currentTime := 0\<rparr>)"
  have len: "length (getQueue s) = length (queue s)" using inv by (rule player_inv_length)
  have lo: "-1 \<le> currentIndex s" using inv by (simp add: player_inv_def)
  have hi: "currentIndex s < int (length (queue s))" using inv by (simp add: player_inv_def)
  have s1: "currentIndex ?s1 = currentIndex s" "queue ?s1 = queue s" "getQueue ?s1 = getQueue s"
    "repeat ?s1 = repeat s" "hasNext ?s1 = hasNext s"
    "trace ?s1 = trace s @ (if onEnded s then [Ended] else [])"
    by (simp_all add: notify_def emit_def getQueue_def hasNext_def)
  have s2: "currentIndex ?s2 = currentIndex s" "queue ?s2 = queue s" "getQueue ?s2 = getQueue s"
    "audio_src ?s2 = audio_src s" "audio_currentTime ?s2 = 0"
    "prefix (trace ?s1) (trace ?s2)" "audioContext ?s2 = audioContext s"
    "trace ?s2 = trace s @ (if onEnded s then [Ended] else []) @ [SetCurrentTime 0]"
    by (simp_all add: notify_def emit_def getQueue_def)
  have one: "repeat s = ''one'' \<Longrightarrow> handleEnded ro po s = play ro po ?s2"
    by (simp add: handleEnded_def Let_def s1)
  have nxt: "repeat s \<noteq> ''one'' \<Longrightarrow> hasNext s \<Longrightarrow> handleEnded ro po s = next_track ro po ?s1"
    by (simp add: handleEnded_def Let_def s1)
  have all: "repeat s \<noteq> ''one'' \<Longrightarrow> \<not> hasNext s \<Longrightarrow> repeat s = ''all'' \<and> queue s \<noteq> [] \<Longrightarrow>
             handleEnded ro po s = playIndex 0 ro po ?s1"
    by (simp add: handleEnded_def Let_def s1)
  have none: "repeat s \<noteq> ''one'' \<Longrightarrow> \<not> hasNext s \<Longrightarrow> \<not> (repeat s = ''all'' \<and> queue s \<noteq> []) \<Longrightarrow>
             handleEnded ro po s = ?s1"
    by (auto simp: handleEnded_def Let_def s1)
  have A: "prefix (trace s @ (if onEnded s then [Ended] else [])) (trace (handleEnded ro po s))"
  proof -
    have "prefix (trace ?s1) (trace (handleEnded ro po s))"
    proof (cases "repeat s = ''one''")
      case True
      have "prefix (trace ?s2) (trace (play ro po ?s2))" by (rule trace_play)
      with s2(6) have "prefix (trace ?s1) (trace (play ro po ?s2))" by (rule prefix_order.trans)
      thus ?thesis using one[OF True] by simp
    next
      case False
      show ?thesis
      proof (cases "hasNext s")
        case True
        thus ?thesis using nxt[OF False True] trace_next_track[of ?s1 ro po] by simp
      next
        case nh: False
        show ?thesis
        proof (cases "repeat s = ''all'' \<and> queue s \<noteq> []")
          case True
          thus ?thesis using all[OF False nh True] trace_playIndex[of ?s1 0 ro po] by simp
        next
          case f: False
          thus ?thesis using none[OF False nh f] by simp
        qed
      qed
    qed
    thus ?thesis by (simp only: s1(6))
  qed
  have B1: "repeat s = ''one'' \<Longrightarrow> currentIndex s \<noteq> -1 \<or> queue s = [] \<Longrightarrow>
            currentIndex (handleEnded ro po s) = currentIndex s
            \<and> audio_src (handleEnded ro po s) = audio_src s
            \<and> audio_currentTime (handleEnded ro po s) = 0"
    using play_selected[of ?s2 ro po] lo by (simp add: one s2)
  have B2: "repeat s = ''one'' \<Longrightarrow> currentIndex s = -1 \<and> queue s \<noteq> [] \<Longrightarrow>
            currentIndex (handleEnded ro po s) = 0"
    using len by (simp add: one play_def s2 playIndex_currentIndex)
  have B2': "repeat s = ''one'' \<Longrightarrow> currentIndex s = -1 \<and> queue s \<noteq> [] \<Longrightarrow>
            handleEnded ro po s = playIndex 0 ro po ?s2"
    by (simp add: one play_def s2)
  have B3: "repeat s = ''one'' \<Longrightarrow> currentIndex s \<noteq> -1 \<or> queue s = [] \<Longrightarrow>
            trace (handleEnded ro po s)
            = trace s @ (if onEnded s then [Ended] else []) @ [SetCurrentTime 0]
              @ (if audioContext s = Some Suspended then [ContextResume] else [])
              @ (if audioContext s = Some Suspended \<and> ro \<noteq> Fulfilled then []
                 else SinkPlay # (case po of Fulfilled \<Rightarrow> []
                                  | Rejected e \<Rightarrow> [ConsoleError e] | Pending \<Rightarrow> []))"
  proof -
    assume r: "repeat s = ''one''" and c: "currentIndex s \<noteq> -1 \<or> queue s = []"
    have "\<not> (currentIndex ?s2 < 0 \<and> length (queue ?s2) > 0)"
      using c lo by (auto simp: s2)
    hence "trace (play ro po ?s2)
           = trace ?s2 @ (if audioContext ?s2 = Some Suspended then [ContextResume] else [])
             @ (if audioContext ?s2 = Some Suspended \<and> ro \<noteq> Fulfilled then []
                else SinkPlay # (case po of Fulfilled \<Rightarrow> []
                                 | Rejected e \<Rightarrow> [ConsoleError e] | Pending \<Rightarrow> []))"
      by (rule play_resume_trace)
    thus ?thesis unfolding one[OF r] s2(7) s2(8) by simp
  qed
  have B4: "repeat s = ''one'' \<Longrightarrow> currentIndex s \<noteq> -1 \<or> queue s = [] \<Longrightarrow>
            audioContext s \<noteq> Some Suspended \<Longrightarrow>
            prefix (trace s @ (if onEnded s then [Ended] else []) @ [SetCurrentTime 0, SinkPlay])
              (trace (handleEnded ro po s))"
  proof -
    assume r: "repeat s = ''one''" and c: "currentIndex s \<noteq> -1 \<or> queue s = []"
      and a: "audioContext s \<noteq> Some Suspended"
    show ?thesis unfolding B3[OF r c] using a by simp
  qed
  have C: "repeat s \<noteq> ''one'' \<Longrightarrow> hasNext s \<Longrightarrow>
           currentIndex (handleEnded ro po s) = currentIndex s + 1"
    using lo by (simp add: nxt next_track_def s1 playIndex_currentIndex) (simp add: hasNext_def)
  have D: "repeat s \<noteq> ''one'' \<Longrightarrow> \<not> hasNext s \<Longrightarrow> repeat s = ''all'' \<and> queue s \<noteq> [] \<Longrightarrow>
           currentIndex (handleEnded ro po s) = 0"
    using len by (simp add: all s1 playIndex_currentIndex)
  have E: "\<not> hasNext s \<Longrightarrow> currentIndex s = int (length (getQueue s)) - 1"
    using hi len by (simp add: hasNext_def)
  have ONE: "repeat s = ''one'' \<longrightarrow>
          handleEnded ro po s = play ro po ?s2
          \<and> (currentIndex s \<noteq> -1 \<or> queue s = [] \<longrightarrow>
                currentIndex (handleEnded ro po s) = currentIndex s
                \<and> audio_src (handleEnded ro po s) = audio_src s
                \<and> audio_currentTime (handleEnded ro po s) = 0
                \<and> trace (handleEnded ro po s)
                    = trace s @ (if onEnded s then [Ended] else []) @ [SetCurrentTime 0]
                      @ (if audioContext s = Some Suspended then [ContextResume] else [])
                      @ (if audioContext s = Some Suspended \<and> ro \<noteq> Fulfilled then []
                         else SinkPlay # (case po of Fulfilled \<Rightarrow> []
                                          | Rejected e \<Rightarrow> [ConsoleError e] | Pending \<Rightarrow> []))
                \<and> (audioContext s \<noteq> Some Suspended \<longrightarrow>
                      prefix (trace s @ (if onEnded s then [Ended] else [])
                                @ [SetCurrentTime 0, SinkPlay])
                        (trace (handleEnded ro po s))))
          \<and> (currentIndex s = -1 \<and> queue s \<noteq> [] \<longrightarrow>
                handleEnded ro po s = playIndex 0 ro po ?s2
                \<and> currentIndex (handleEnded ro po s) = 0)"
    using one B1 B2 B2' B3 B4 by blast
  have REST: "(repeat s \<noteq> ''one'' \<and> hasNext s \<longrightarrow>
          handleEnded ro po s = next_track ro po ?s1
          \<and> currentIndex (handleEnded ro po s) = currentIndex s + 1)
    \<and> (repeat s \<noteq> ''one'' \<and> \<not> hasNext s \<and> repeat s = ''all'' \<and> queue s \<noteq> [] \<longrightarrow>
          handleEnded ro po s = playIndex 0 ro po ?s1
          \<and> currentIndex (handleEnded ro po s) = 0)
    \<and> (repeat s \<noteq> ''one'' \<and> \<not> hasNext s \<and> \<not> (repeat s = ''all'' \<and> queue s \<noteq> []) \<longrightarrow>
          handleEnded ro po s = ?s1
          \<and> currentIndex (handleEnded ro po s) = currentIndex s
          \<and> currentIndex s = int (length (getQueue s)) - 1)"
    using nxt all none C D E s1(1) by auto
  from A ONE REST show ?thesis by blast
qed

text \<open>
  The amended C4 at the queue \<open>[A, B]\<close>: repeat \<open>all\<close> at the last position goes to
  index 0; repeat \<open>one\<close> with B selected stays at index 1 and commands the position
  0 and \<open>audio.play()\<close> after the ended notification; repeat \<open>one\<close> with no
  track selected goes to index 0; repeat off at index 0 goes to index 1; repeat off at the
  last position stays there, after the ended notification.
\<close>

theorem ended_transition_order_witness:
  "(repeat (setRepeat ''all'' (playIndex 1 Fulfilled Fulfilled loaded_AB)) \<noteq> ''one''
      \<and> \<not> hasNext (setRepeat ''all'' (playIndex 1 Fulfilled Fulfilled loaded_AB))
      \<and> currentIndex (handleEnded Fulfilled Fulfilled
            (setRepeat ''all'' (playIndex 1 Fulfilled Fulfilled loaded_AB))) = 0)
   \<and> (repeat (setRepeat ''one'' (playIndex 1 Fulfilled Fulfilled loaded_AB)) = ''one''
      \<and> currentIndex (handleEnded Fulfilled Fulfilled
            (setRepeat ''one'' (playIndex 1 Fulfilled Fulfilled loaded_AB))) = 1
      \<and> trace (handleEnded Fulfilled Fulfilled
            (setRepeat ''one'' (playIndex 1 Fulfilled Fulfilled loaded_AB)))
          = [SetSrc ''u/b'', SinkPlay, TrackChange trackB, Ended, SetCurrentTime 0, SinkPlay])
   \<and> (repeat replaced_queue = ''one''
      \<and> currentIndex (handleEnded Fulfilled Fulfilled replaced_queue) = 0)
   \<and> (repeat (playIndex 0 Fulfilled Fulfilled loaded_AB) \<noteq> ''one''
      \<and> hasNext (playIndex 0 Fulfilled Fulfilled loaded_AB)
      \<and> currentIndex (handleEnded Fulfilled Fulfilled (playIndex 0 Fulfilled Fulfilled loaded_AB)) = 1)
   \<and> (repeat (playIndex 1 Fulfilled Fulfilled loaded_AB) \<noteq> ''one''
      \<and> \<not> hasNext (playIndex 1 Fulfilled Fulfilled loaded_AB)
      \<and> currentIndex (handleEnded Fulfilled Fulfilled (playIndex 1 Fulfilled Fulfilled loaded_AB)) = 1
      \<and> prefix (trace (playIndex 1 Fulfilled Fulfilled loaded_AB) @ [Ended])
           (trace (handleEnded Fulfilled Fulfilled (playIndex 1 Fulfilled Fulfilled loaded_AB))))"
proof -
  let ?p0 = "playIndex 0 Fulfilled Fulfilled loaded_AB"
  let ?p1 = "playIndex 1 Fulfilled Fulfilled loaded_AB"
  have i0: "player_inv ?p0" and i1: "player_inv ?p1"
    by (rule player_inv_playIndex [OF player_inv_loaded_AB])+
  have ia: "player_inv (setRepeat ''all'' ?p1)" and io: "player_inv (setRepeat ''one'' ?p1)"
    by (rule player_inv_setRepeat [OF i1])+
  have a: "repeat (setRepeat ''all'' ?p1) \<noteq> ''one'' \<and> \<not> hasNext (setRepeat ''all'' ?p1)
           \<and> repeat (setRepeat ''all'' ?p1) = ''all'' \<and> queue (setRepeat ''all'' ?p1) \<noteq> []"
    by code_simp
  have b: "repeat (setRepeat ''one'' ?p1) = ''one'' \<and> currentIndex (setRepeat ''one'' ?p1) \<noteq> -1
           \<and> currentIndex (setRepeat ''one'' ?p1) = 1"
    by code_simp
  have b': "trace (setRepeat ''one'' ?p1) = [SetSrc ''u/b'', SinkPlay, TrackChange trackB]"
    "onEnded (setRepeat ''one'' ?p1)" "audioContext (setRepeat ''one'' ?p1) \<noteq> Some Suspended"
    by code_simp+
  have c: "repeat replaced_queue = ''one'' \<and> currentIndex replaced_queue = -1
           \<and> queue replaced_queue \<noteq> []"
    by code_simp
  have d: "repeat ?p0 \<noteq> ''one'' \<and> hasNext ?p0 \<and> currentIndex ?p0 + 1 = 1" by code_simp
  have e: "repeat ?p1 \<noteq> ''one'' \<and> \<not> hasNext ?p1 \<and> repeat ?p1 \<noteq> ''all''
           \<and> currentIndex ?p1 = 1 \<and> onEnded ?p1"
    by code_simp
  have A: "currentIndex (handleEnded Fulfilled Fulfilled (setRepeat ''all'' ?p1)) = 0"
    using ended_transition_order[OF ia, of Fulfilled Fulfilled] a by blast
  have B: "currentIndex (handleEnded Fulfilled Fulfilled (setRepeat ''one'' ?p1)) = 1"
    using ended_transition_order[OF io, of Fulfilled Fulfilled] b by metis
  have "trace (handleEnded Fulfilled Fulfilled (setRepeat ''one'' ?p1))
        = trace (setRepeat ''one'' ?p1)
          @ (if onEnded (setRepeat ''one'' ?p1) then [Ended] else []) @ [SetCurrentTime 0]
          @ (if audioContext (setRepeat ''one'' ?p1) = Some Suspended then [ContextResume] else [])
          @ (if audioContext (setRepeat ''one'' ?p1) = Some Suspended \<and> Fulfilled \<noteq> Fulfilled
             then []
             else SinkPlay # (case Fulfilled of Fulfilled \<Rightarrow> []
                              | Rejected e \<Rightarrow> [ConsoleError e] | Pending \<Rightarrow> []))"
    using ended_transition_order[OF io, of Fulfilled Fulfilled] b by blast
  hence B': "trace (handleEnded Fulfilled Fulfilled (setRepeat ''one'' ?p1))
             = [SetSrc ''u/b'', SinkPlay, TrackChange trackB, Ended, SetCurrentTime 0, SinkPlay]"
    by (simp add: b')
  have C: "currentIndex (handleEnded Fulfilled Fulfilled replaced_queue) = 0"
    using ended_transition_order[OF player_inv_replaced_queue, of Fulfilled Fulfilled] c by blast
  have D: "currentIndex (handleEnded Fulfilled Fulfilled ?p0) = 1"
    using ended_transition_order[OF i0, of Fulfilled Fulfilled] d by metis
  have E: "currentIndex (handleEnded Fulfilled Fulfilled ?p1) = 1
           \<and> prefix (trace ?p1 @ [Ended]) (trace (handleEnded Fulfilled Fulfilled ?p1))"
    using ended_transition_order[OF i1, of Fulfilled Fulfilled] e by metis
  from a b c d e A B B' C D E show ?thesis by blast
qed

subsection \<open>C5: the selected index stays inside the active ordering\<close>

text \<open>
  C5: after every sequence of operations on a new player (the methods of the queue and the
  transport, and the notifications of the audio element, with every outcome of the awaited
  promises and every random draw a double in \<open>[0, 1)\<close>), \<open>currentIndex\<close> is -1 or an
  index of the active ordering. The part of a method that runs after an \<open>await\<close> only logs and
  notifies, so running it at once or later gives the same index and orderings.
\<close>

theorem index_invariant_every_run:
  "\<forall>x\<in>set ops. valid_op x \<Longrightarrow> index_inv (run ops new_player)"
  by (rule player_inv_index_inv [OF player_inv_run [OF _ player_inv_new]])

text \<open>
  C5 on a run that selects, shuffles, extends the queue, advances, wraps around at the end
  and unshuffles; a track is selected at its end.
\<close>

theorem index_invariant_every_run_witness:
  "unit_draws zero_draws \<and> unit_draws half_draws
   \<and> currentIndex
        (run [SetQueue zero_draws [trackA, trackB], PlayIndex 1 Fulfilled (Rejected ''network''),
          ToggleShuffle half_draws, AddToQueue half_draws [trackC], Next Fulfilled Pending,
          SetRepeat ''all'', SinkEnded Fulfilled Fulfilled, SinkEnded Fulfilled Fulfilled,
          Previous Fulfilled Fulfilled, ToggleShuffle zero_draws]
           new_player) = 0
   \<and> length (getQueue
        (run [SetQueue zero_draws [trackA, trackB], PlayIndex 1 Fulfilled (Rejected ''network''),
          ToggleShuffle half_draws, AddToQueue half_draws [trackC], Next Fulfilled Pending,
          SetRepeat ''all'', SinkEnded Fulfilled Fulfilled, SinkEnded Fulfilled Fulfilled,
          Previous Fulfilled Fulfilled, ToggleShuffle zero_draws]
           new_player)) = 3
   \<and> index_inv
        (run [SetQueue zero_draws [trackA, trackB], PlayIndex 1 Fulfilled (Rejected ''network''),
          ToggleShuffle half_draws, AddToQueue half_draws [trackC], Next Fulfilled Pending,
          SetRepeat ''all'', SinkEnded Fulfilled Fulfilled, SinkEnded Fulfilled Fulfilled,
          Previous Fulfilled Fulfilled, ToggleShuffle zero_draws]
           new_player)"
proof -
  let ?ops = "[SetQueue zero_draws [trackA, trackB], PlayIndex 1 Fulfilled (Rejected ''network''),
          ToggleShuffle half_draws, AddToQueue half_draws [trackC], Next Fulfilled Pending,
          SetRepeat ''all'', SinkEnded Fulfilled Fulfilled, SinkEnded Fulfilled Fulfilled,
          Previous Fulfilled Fulfilled, ToggleShuffle zero_draws]"
  have v: "\<forall>x\<in>set ?ops. valid_op x" by (simp add: valid_examples)
  have c: "currentIndex (run ?ops new_player) = 0" by code_simp
  have l: "length (getQueue (run ?ops new_player)) = 3" by code_simp
  from valid_examples c l index_invariant_every_run[OF v] show ?thesis by blast
qed

subsection \<open>C6: setQueue\<close>

text \<open>
  The model rounds as the code does at the draws where an exact product would give
  another index: \<open>4 - 2^-52\<close> and \<open>2 - 2^-53\<close> lie halfway between two doubles and
  round up to 4 and 2.
\<close>

lemma random_index_rounds_like_doubles:
  "random_index (2573485501354569 / 2 ^ 52) 6 = 4"
  "random_index (2573485501354568 / 2 ^ 52) 6 = 3"
  "random_index (6004799503160661 / 2 ^ 53) 2 = 2"
  "random_index (1 / 2) 2 = 1"
  by code_simp+

lemma swap_nth:
  "i < length xs \<Longrightarrow> j < length xs \<Longrightarrow>
   swap i j xs ! i = xs ! j \<and> swap i j xs ! j = xs ! i
   \<and> (\<forall>k. k \<noteq> i \<and> k \<noteq> j \<longrightarrow> swap i j xs ! k = xs ! k)"
  by (simp add: swap_def nth_list_update)

text \<open>
  C6: for every track sequence \<open>T\<close>, after \<open>setQueue(T)\<close> the canonical queue is
  \<open>T\<close>, the shuffled queue has the same elements with the same multiplicities (so has the
  active ordering under shuffle), and \<open>currentIndex\<close> is -1. The shuffled queue is the
  result of the Fisher--Yates procedure of the specification: for \<open>i\<close> from the last
  index down to 1, the elements at \<open>i\<close> and at the chosen index are exchanged, the other
  elements stay, and the chosen index is \<open>Math.floor(Math.random() * (i + 1))\<close>, which
  lies in \<open>0..i\<close>. The choice is uniform as far as doubles allow: the index \<open>j\<close> is
  chosen for every draw \<open>r\<close> with \<open>j \<le> r * (i + 1) \<le> (j + 1) * (1 - 2^-53)\<close>, and
  only for draws with \<open>j * (1 - 2^-53) \<le> r * (i + 1) < j + 1\<close>; so the draws that choose
  \<open>j\<close> fill an interval of length \<open>1 / (i + 1)\<close> up to the rounding of the product.
  How \<open>Math.random()\<close> distributes its draws is not part of the player.
\<close>

theorem setQueue_sets_both_orderings:
  assumes "unit_draws rnd"
  shows "queue (setQueue rnd T s) = T
    \<and> mset (shuffledQueue (setQueue rnd T s)) = mset T
    \<and> (shuffle s \<longrightarrow> mset (getQueue (setQueue rnd T s)) = mset T)
    \<and> currentIndex (setQueue rnd T s) = -1
    \<and> shuffledQueue (setQueue rnd T s) = fisher_yates (\<lambda>i. random_index (rnd i) i) T
    \<and> (\<forall>i. random_index (rnd i) i \<le> i)
    \<and> (\<forall>i j (xs :: track list). i < length xs \<and> j < length xs \<longrightarrow>
          swap i j xs ! i = xs ! j \<and> swap i j xs ! j = xs ! i
          \<and> (\<forall>k. k \<noteq> i \<and> k \<noteq> j \<longrightarrow> swap i j xs ! k = xs ! k)
          \<and> length (swap i j xs) = length xs)
    \<and> (\<forall>r i j. 0 \<le> r \<and> r < 1 \<and> i < 2 ^ 53 \<longrightarrow>
          (real j \<le> r * (real i + 1) \<and> r * (real i + 1) \<le> (real j + 1) * (1 - 1 / 2 ^ 53)
             \<longrightarrow> random_index r i = j)
          \<and> (random_index r i = j
             \<longrightarrow> real j * (1 - 1 / 2 ^ 53) \<le> r * (real i + 1) \<and> r * (real i + 1) < real j + 1))"
proof -
  have a: "queue (setQueue rnd T s) = T" by (simp add: setQueue_def)
  have b: "mset (shuffledQueue (setQueue rnd T s)) = mset T"
    using assms by (simp add: setQueue_def mset_shuffleArray)
  have b': "shuffle s \<longrightarrow> mset (getQueue (setQueue rnd T s)) = mset T"
    using assms by (simp add: setQueue_def getQueue_def mset_shuffleArray)
  have c: "currentIndex (setQueue rnd T s) = -1" by (simp add: setQueue_def)
  have d: "shuffledQueue (setQueue rnd T s) = fisher_yates (\<lambda>i. random_index (rnd i) i) T"
    by (simp add: setQueue_def shuffleArray_fisher_yates)
  have e: "\<forall>i. random_index (rnd i) i \<le> i"
    using assms by (simp add: unit_draws_def random_index_le)
  have f: "\<forall>i j (xs :: track list). i < length xs \<and> j < length xs \<longrightarrow>
          swap i j xs ! i = xs ! j \<and> swap i j xs ! j = xs ! i
          \<and> (\<forall>k. k \<noteq> i \<and> k \<noteq> j \<longrightarrow> swap i j xs ! k = xs ! k)
          \<and> length (swap i j xs) = length xs"
    using swap_nth length_swap by blast
  have g: "\<forall>r i j. 0 \<le> r \<and> r < 1 \<and> i < 2 ^ 53 \<longrightarrow>
          (real j \<le> r * (real i + 1) \<and> r * (real i + 1) \<le> (real j + 1) * (1 - 1 / 2 ^ 53)
             \<longrightarrow> random_index r i = j)
          \<and> (random_index r i = j
             \<longrightarrow> real j * (1 - 1 / 2 ^ 53) \<le> r * (real i + 1) \<and> r * (real i + 1) < real j + 1)"
  proof (intro allI impI)
    fix r :: real and i j :: nat
    assume h: "0 \<le> r \<and> r < 1 \<and> i < 2 ^ 53"
    define n where "n = real i + 1"
    have n53: "n \<le> 2 ^ 53"
    proof -
      from h have "Suc i \<le> 2 ^ 53" by simp
      hence "real (Suc i) \<le> real (2 ^ 53)" by (simp only: of_nat_le_iff)
      thus ?thesis by (simp add: n_def)
    qed
    have "r * n < 1 * n"
      by (rule mult_strict_right_mono) (use h in \<open>simp_all add: n_def\<close>)
    hence "r * n < 2 ^ 53" using n53 by linarith
    hence x53: "r * (real i + 1) < 2 ^ 53" by (simp only: n_def)
    from h have r0: "0 \<le> r" by simp
    show "(real j \<le> r * (real i + 1) \<and> r * (real i + 1) \<le> (real j + 1) * (1 - 1 / 2 ^ 53)
             \<longrightarrow> random_index r i = j)
          \<and> (random_index r i = j
             \<longrightarrow> real j * (1 - 1 / 2 ^ 53) \<le> r * (real i + 1) \<and> r * (real i + 1) < real j + 1)"
      using random_index_inside[OF r0 x53, of j] random_index_outside[OF r0 x53, of j] by blast
  qed
  from a b b' c d e f g show ?thesis by blast
qed

text \<open>
  C6 at \<open>[A, B, C]\<close> with shuffle enabled, where the two exchanges of the shuffle give
  \<open>[B, C, A]\<close>; at the empty sequence; and for the draw 1/2 at \<open>i = 1\<close>, which chooses
  index 1.
\<close>

theorem setQueue_sets_both_orderings_witness:
  "unit_draws zero_draws
   \<and> queue (setQueue zero_draws [trackA, trackB, trackC] (toggleShuffle zero_draws new_player))
       = [trackA, trackB, trackC]
   \<and> shuffledQueue (setQueue zero_draws [trackA, trackB, trackC] (toggleShuffle zero_draws new_player))
       = [trackB, trackC, trackA]
   \<and> fisher_yates (\<lambda>i. random_index (zero_draws i) i) [trackA, trackB, trackC]
       = [trackB, trackC, trackA]
   \<and> mset (getQueue (setQueue zero_draws [trackA, trackB, trackC] (toggleShuffle zero_draws new_player)))
       = mset [trackA, trackB, trackC]
   \<and> currentIndex (setQueue zero_draws [trackA, trackB, trackC] (toggleShuffle zero_draws new_player)) = -1
   \<and> queue (setQueue zero_draws [] loaded_AB) = []
   \<and> shuffledQueue (setQueue zero_draws [] loaded_AB) = []
   \<and> currentIndex (setQueue zero_draws [] loaded_AB) = -1
   \<and> swap 2 0 [trackA, trackB, trackC] = [trackC, trackB, trackA]
   \<and> random_index (1 / 2) 1 = 1"
proof -
  let ?s = "toggleShuffle zero_draws new_player"
  note T = setQueue_sets_both_orderings[OF valid_examples(1), of "[trackA, trackB, trackC]" ?s]
  note E = setQueue_sets_both_orderings[OF valid_examples(1), of "[]" loaded_AB]
  have sh: "shuffle ?s" by code_simp
  have ev: "shuffledQueue (setQueue zero_draws [trackA, trackB, trackC] ?s) = [trackB, trackC, trackA]"
    by code_simp
  have fy: "fisher_yates (\<lambda>i. random_index (zero_draws i) i) [trackA, trackB, trackC]
            = [trackB, trackC, trackA]"
    using T ev by simp
  have em: "shuffledQueue (setQueue zero_draws [] loaded_AB) = []"
    using E by simp
  have sw: "swap 2 0 [trackA, trackB, trackC] = [trackC, trackB, trackA]" by code_simp
  have "(0::real) \<le> 1 / 2 \<and> (1::real) / 2 < 1 \<and> (1::nat) < 2 ^ 53
        \<and> real 1 \<le> 1 / 2 * (real 1 + 1) \<and> 1 / 2 * (real 1 + 1) \<le> (real 1 + 1) * (1 - 1 / 2 ^ 53)"
    by simp
  hence ri: "random_index (1 / 2) 1 = 1" using E by blast
  show ?thesis using T E valid_examples(1) sh ev fy em sw ri by blast
qed

subsection \<open>C7: previous\<close>

text \<open>
  C7: when the playback position is above 3 seconds, \<open>previous()\<close> sets the position to
  0 and changes nothing else (same index, same source); otherwise, when \<open>currentIndex\<close>
  is above 0, it is \<open>playIndex(currentIndex - 1)\<close>; otherwise it does nothing.
\<close>

theorem previous_three_second_rule:
  "(3 < audio_currentTime s \<longrightarrow>
      previous ro po s = emit (SetCurrentTime 0) (s\<lparr>audio_currentTime := 0\<rparr>)
      \<and> audio_currentTime (previous ro po s) = 0
      \<and> currentIndex (previous ro po s) = currentIndex s
      \<and> audio_src (previous ro po s) = audio_src s)
   \<and> (\<not> 3 < audio_currentTime s \<and> hasPrevious s \<longrightarrow>
      previous ro po s = playIndex (currentIndex s - 1) ro po s)
   \<and> (\<not> 3 < audio_currentTime s \<and> \<not> hasPrevious s \<longrightarrow> previous ro po s = s)
   \<and> hasPrevious s = (0 < currentIndex s)"
  by (simp add: previous_def hasPrevious_def emit_def)

text \<open>
  C7 at the queue \<open>[A, B]\<close>: B selected at 5 seconds restarts B; B selected at 1 second
  goes to index 0; A selected at 1 second stays as it is.
\<close>

theorem previous_three_second_rule_witness:
  "(3 < audio_currentTime (apply_op (SinkTime 5) (playIndex 1 Fulfilled Fulfilled loaded_AB))
      \<and> audio_currentTime (previous Fulfilled Fulfilled
           (apply_op (SinkTime 5) (playIndex 1 Fulfilled Fulfilled loaded_AB))) = 0
      \<and> currentIndex (previous Fulfilled Fulfilled
           (apply_op (SinkTime 5) (playIndex 1 Fulfilled Fulfilled loaded_AB))) = 1)
   \<and> (\<not> 3 < audio_currentTime (apply_op (SinkTime 1) (playIndex 1 Fulfilled Fulfilled loaded_AB))
      \<and> hasPrevious (apply_op (SinkTime 1) (playIndex 1 Fulfilled Fulfilled loaded_AB))
      \<and> currentIndex (previous Fulfilled Fulfilled
           (apply_op (SinkTime 1) (playIndex 1 Fulfilled Fulfilled loaded_AB))) = 0)
   \<and> (\<not> 3 < audio_currentTime (apply_op (SinkTime 1) (playIndex 0 Fulfilled Fulfilled loaded_AB))
      \<and> \<not> hasPrevious (apply_op (SinkTime 1) (playIndex 0 Fulfilled Fulfilled loaded_AB))
      \<and> previous Fulfilled Fulfilled (apply_op (SinkTime 1) (playIndex 0 Fulfilled Fulfilled loaded_AB))
          = apply_op (SinkTime 1) (playIndex 0 Fulfilled Fulfilled loaded_AB))"
proof -
  let ?s5 = "apply_op (SinkTime 5) (playIndex 1 Fulfilled Fulfilled loaded_AB)"
  let ?s1 = "apply_op (SinkTime 1) (playIndex 1 Fulfilled Fulfilled loaded_AB)"
  let ?s0 = "apply_op (SinkTime 1) (playIndex 0 Fulfilled Fulfilled loaded_AB)"
  have a: "3 < audio_currentTime ?s5 \<and> currentIndex ?s5 = 1" by code_simp
  have b: "\<not> 3 < audio_currentTime ?s1 \<and> hasPrevious ?s1
           \<and> currentIndex (playIndex (currentIndex ?s1 - 1) Fulfilled Fulfilled ?s1) = 0"
    by code_simp
  have c: "\<not> 3 < audio_currentTime ?s0 \<and> \<not> hasPrevious ?s0" by code_simp
  have A: "audio_currentTime (previous Fulfilled Fulfilled ?s5) = 0
           \<and> currentIndex (previous Fulfilled Fulfilled ?s5) = 1"
    using previous_three_second_rule[of ?s5 Fulfilled Fulfilled] a by metis
  have B: "currentIndex (previous Fulfilled Fulfilled ?s1) = 0"
    using previous_three_second_rule[of ?s1 Fulfilled Fulfilled] b by metis
  have C: "previous Fulfilled Fulfilled ?s0 = ?s0"
    using previous_three_second_rule[of ?s0 Fulfilled Fulfilled] c by metis
  from a b c A B C show ?thesis by blast
qed

subsection \<open>C8: playback errors\<close>

text \<open>
  C8: when the audio element reports an error, the handler logs it and calls the host's
  error callback (when one is assigned) with the error, and changes nothing else. When
  \<open>audio.play()\<close> rejects inside \<open>playIndex\<close>, the player is what it was while the
  promise was pending, with the same log entry and notification added: the selected index,
  both orderings and the loaded source are unchanged, and no command goes to the audio
  element, so nothing is retried and no other track is started.
\<close>

theorem playback_error_reported_without_advance:
  "on_error e s = s\<lparr>trace := trace s @ [ConsoleError e] @ (if onError s then [Error e] else [])\<rparr>
   \<and> (snd (playIndex_begin i s) \<noteq> None \<and> snd (resume_context ro (fst (playIndex_begin i s))) \<longrightarrow>
        playIndex i ro (Rejected e) s
        = (playIndex i ro Pending s)
            \<lparr>trace := trace (playIndex i ro Pending s) @ [ConsoleError e]
                        @ (if onError s then [Error e] else [])\<rparr>)
   \<and> currentIndex (playIndex i ro (Rejected e) s) = currentIndex (playIndex i ro Pending s)
   \<and> queue (playIndex i ro (Rejected e) s) = queue s
   \<and> shuffledQueue (playIndex i ro (Rejected e) s) = shuffledQueue s
   \<and> audio_src (playIndex i ro (Rejected e) s) = audio_src (playIndex i ro Pending s)"
proof -
  have a: "on_error e s = s\<lparr>trace := trace s @ [ConsoleError e] @ (if onError s then [Error e] else [])\<rparr>"
    by (simp add: on_error_def notify_def emit_def)
  have b: "snd (playIndex_begin i s) \<noteq> None \<and> snd (resume_context ro (fst (playIndex_begin i s))) \<longrightarrow>
        playIndex i ro (Rejected e) s
        = (playIndex i ro Pending s)
            \<lparr>trace := trace (playIndex i ro Pending s) @ [ConsoleError e]
                        @ (if onError s then [Error e] else [])\<rparr>"
    by (simp add: transport_defs Let_def split: outcome.splits)
  have c: "currentIndex (playIndex i ro (Rejected e) s) = currentIndex (playIndex i ro Pending s)"
    by (simp add: playIndex_currentIndex)
  have d: "audio_src (playIndex i ro (Rejected e) s) = audio_src (playIndex i ro Pending s)"
    by (simp add: transport_defs Let_def split: outcome.splits)
  from a b c d show ?thesis by (simp add: playIndex_frame)
qed

text \<open>
  C8 at the queue \<open>[A, B]\<close>: \<open>playIndex(1)\<close> whose \<open>audio.play()\<close> rejects, and
  an error notification while B is loading.
\<close>

theorem playback_error_reported_without_advance_witness:
  "snd (playIndex_begin 1 loaded_AB) \<noteq> None
   \<and> snd (resume_context Fulfilled (fst (playIndex_begin 1 loaded_AB)))
   \<and> trace (playIndex 1 Fulfilled (Rejected ''network'') loaded_AB)
       = [SetSrc ''u/b'', SinkPlay, ConsoleError ''network'', Error ''network'']
   \<and> currentIndex (playIndex 1 Fulfilled (Rejected ''network'') loaded_AB) = 1
   \<and> queue (playIndex 1 Fulfilled (Rejected ''network'') loaded_AB) = [trackA, trackB]
   \<and> trace (on_error ''decode'' (playIndex 1 Fulfilled Pending loaded_AB))
       = [SetSrc ''u/b'', SinkPlay, ConsoleError ''decode'', Error ''decode'']
   \<and> currentIndex (on_error ''decode'' (playIndex 1 Fulfilled Pending loaded_AB)) = 1"
proof -
  let ?p = "playIndex 1 Fulfilled Pending loaded_AB"
  let ?r = "playIndex 1 Fulfilled (Rejected ''network'') loaded_AB"
  note T = playback_error_reported_without_advance[of "''network''" loaded_AB 1 Fulfilled]
  note U = playback_error_reported_without_advance[of "''decode''" ?p 1 Fulfilled]
  have a: "snd (playIndex_begin 1 loaded_AB) \<noteq> None
           \<and> snd (resume_context Fulfilled (fst (playIndex_begin 1 loaded_AB)))"
    by code_simp
  have b: "trace ?p = [SetSrc ''u/b'', SinkPlay]" "currentIndex ?p = 1" "onError ?p"
    "onError loaded_AB" "queue loaded_AB = [trackA, trackB]"
    by code_simp+
  have A1: "?r = ?p\<lparr>trace := trace ?p @ [ConsoleError ''network'']
                          @ (if onError loaded_AB then [Error ''network''] else [])\<rparr>"
    using T a by blast
  have A2: "currentIndex ?r = currentIndex ?p" using T by blast
  have A3: "queue ?r = queue loaded_AB" using T by blast
  have B1: "on_error ''decode'' ?p
            = ?p\<lparr>trace := trace ?p @ [ConsoleError ''decode'']
                          @ (if onError ?p then [Error ''decode''] else [])\<rparr>"
    using U by blast
  have A': "trace ?r = [SetSrc ''u/b'', SinkPlay, ConsoleError ''network'', Error ''network'']"
    by (simp add: A1 b)
  have B': "trace (on_error ''decode'' ?p)
            = [SetSrc ''u/b'', SinkPlay, ConsoleError ''decode'', Error ''decode'']"
    by (simp add: B1 b)
  have B'': "currentIndex (on_error ''decode'' ?p) = 1"
    by (simp add: B1 b)
  have A2': "currentIndex ?r = 1" using A2 b(2) by simp
  have A3': "queue ?r = [trackA, trackB]" using A3 b(5) by simp
  from a A' A2' A3' B' B'' show ?thesis by blast
qed

subsection \<open>C9: setVolume\<close>

text \<open>
  C9: for every real \<open>v\<close>, the volume stored by \<open>setVolume(v)\<close>, and given to the audio
  element, is \<open>max(0, min(1, v))\<close>: 0 for \<open>v\<close> below 0 and 1 for \<open>v\<close> above 1.
\<close>

theorem setVolume_clamps:
  "volume (setVolume v s) = max 0 (min 1 v)
   \<and> audio_volume (setVolume v s) = max 0 (min 1 v)
   \<and> (v < 0 \<longrightarrow> volume (setVolume v s) = 0)
   \<and> (1 < v \<longrightarrow> volume (setVolume v s) = 1)"
  by (simp add: setVolume_def emit_def Let_def)

text \<open>C9 at -0.5, 1.7 and 0.3.\<close>

theorem setVolume_clamps_witness:
  "(-1/2 < (0::real) \<and> volume (setVolume (-1/2) new_player) = 0)
   \<and> ((1::real) < 17/10 \<and> volume (setVolume (17/10) new_player) = 1)
   \<and> volume (setVolume (3/10) new_player) = 3/10"
  using setVolume_clamps[of "-1/2" new_player] setVolume_clamps[of "17/10" new_player]
    setVolume_clamps[of "3/10" new_player]
  by simp

subsection \<open>C10: next with no track selected\<close>

text \<open>
  C10: when \<open>currentIndex\<close> is -1 and the active ordering is not empty (in every run of
  the player both orderings have the same length), \<open>hasNext()\<close> is true and \<open>next()\<close>
  is \<open>playIndex(0)\<close>: it selects index 0, and when the track there has a stream URL it
  loads that URL and, unless the audio context is suspended, commands the audio element to
  play.
\<close>

theorem next_track_from_none:
  assumes "currentIndex s = -1" and "getQueue s \<noteq> []"
  shows "hasNext s
    \<and> next_track ro po s = playIndex 0 ro po s
    \<and> currentIndex (next_track ro po s) = 0
    \<and> next_track ro po s \<noteq> s
    \<and> (truthy (streamUrl (getQueue s ! 0)) \<longrightarrow>
          audio_src (next_track ro po s) = streamUrl (getQueue s ! 0)
          \<and> prefix (trace s @ [SetSrc (the (streamUrl (getQueue s ! 0)))])
               (trace (next_track ro po s)))
    \<and> (truthy (streamUrl (getQueue s ! 0)) \<and> audioContext s \<noteq> Some Suspended \<longrightarrow>
          prefix (trace s @ [SetSrc (the (streamUrl (getQueue s ! 0))), SinkPlay])
               (trace (next_track ro po s)))"
proof -
  have h: "hasNext s" using assms by (simp add: hasNext_def)
  hence n: "next_track ro po s = playIndex 0 ro po s" using assms by (simp add: next_track_def)
  have c: "currentIndex (playIndex 0 ro po s) = 0" using assms by (simp add: playIndex_currentIndex)
  hence d: "playIndex 0 ro po s \<noteq> s" using assms by auto
  have e: "truthy (streamUrl (getQueue s ! 0)) \<longrightarrow>
          audio_src (playIndex 0 ro po s) = streamUrl (getQueue s ! 0)
          \<and> prefix (trace s @ [SetSrc (the (streamUrl (getQueue s ! 0)))])
               (trace (playIndex 0 ro po s))"
    using assms by (simp add: transport_defs Let_def split: outcome.splits)
  have f: "truthy (streamUrl (getQueue s ! 0)) \<and> audioContext s \<noteq> Some Suspended \<longrightarrow>
          prefix (trace s @ [SetSrc (the (streamUrl (getQueue s ! 0))), SinkPlay])
               (trace (playIndex 0 ro po s))"
    using assms by (simp add: transport_defs Let_def split: outcome.splits)
  from h n c d e f show ?thesis by simp
qed

text \<open>C10 at the queue \<open>[A, B]\<close> just after \<open>setQueue\<close>.\<close>

theorem next_track_from_none_witness:
  "currentIndex loaded_AB = -1 \<and> getQueue loaded_AB \<noteq> []
   \<and> truthy (streamUrl (getQueue loaded_AB ! 0)) \<and> audioContext loaded_AB \<noteq> Some Suspended
   \<and> hasNext loaded_AB
   \<and> currentIndex (next_track Fulfilled Fulfilled loaded_AB) = 0
   \<and> audio_src (next_track Fulfilled Fulfilled loaded_AB) = Some ''u/a''
   \<and> prefix [SetSrc ''u/a'', SinkPlay] (trace (next_track Fulfilled Fulfilled loaded_AB))"
proof -
  note T = next_track_from_none[of loaded_AB Fulfilled Fulfilled]
  have a: "currentIndex loaded_AB = -1" and b: "getQueue loaded_AB \<noteq> []" by code_simp+
  have c: "truthy (streamUrl (getQueue loaded_AB ! 0))" "audioContext loaded_AB \<noteq> Some Suspended"
    by code_simp+
  have d: "streamUrl (getQueue loaded_AB ! 0) = Some ''u/a''" "trace loaded_AB = []"
    by code_simp+
  have A: "hasNext loaded_AB" "currentIndex (next_track Fulfilled Fulfilled loaded_AB) = 0"
    using T[OF a b] by blast+
  have B: "audio_src (next_track Fulfilled Fulfilled loaded_AB) = streamUrl (getQueue loaded_AB ! 0)"
    using T[OF a b] c by blast
  have C: "prefix (trace loaded_AB @ [SetSrc (the (streamUrl (getQueue loaded_AB ! 0))), SinkPlay])
             (trace (next_track Fulfilled Fulfilled loaded_AB))"
    using T[OF a b] c by blast
  have B': "audio_src (next_track Fulfilled Fulfilled loaded_AB) = Some ''u/a''"
    using B by (simp only: d)
  have C': "prefix [SetSrc ''u/a'', SinkPlay] (trace (next_track Fulfilled Fulfilled loaded_AB))"
    using C by (simp add: d)
  from a b c A B' C' show ?thesis by blast
qed

end
